theory Spec2Isabelle
  imports Complex_Main "HOL-Library.AList" "HOL-Library.Sublist"
begin

section \<open>JavaScript values\<close>

text \<open>
  A JavaScript \<open>Map\<close> keeps its entries in insertion order and holds each key once.
  It is modelled as an association list with unique keys: \<open>set\<close> overwrites in place or
  appends, \<open>delete\<close> removes the entry, \<open>get\<close> of a missing key is \<open>undefined\<close>
  (\<open>None\<close>).
\<close>

type_synonym ('k, 'v) jsmap = "('k \<times> 'v) list"

definition map_has :: "('k, 'v) jsmap \<Rightarrow> 'k \<Rightarrow> bool" where
  "map_has m k = (map_of m k \<noteq> None)"

definition map_get :: "('k, 'v) jsmap \<Rightarrow> 'k \<Rightarrow> 'v option" where
  "map_get m k = map_of m k"

definition map_set :: "('k, 'v) jsmap \<Rightarrow> 'k \<Rightarrow> 'v \<Rightarrow> ('k, 'v) jsmap" where
  "map_set m k v = AList.update k v m"

definition map_delete :: "('k, 'v) jsmap \<Rightarrow> 'k \<Rightarrow> ('k, 'v) jsmap" where
  "map_delete m k = AList.delete k m"

definition map_keys :: "('k, 'v) jsmap \<Rightarrow> 'k list" where
  "map_keys m = map fst m"

text \<open>
  Numbers. Coordinates and zoom are JavaScript doubles; they are modelled as reals, so
  rounding, infinities and NaN of coordinates are outside the model. A feature index is
  the result of \<open>parseInt\<close>: an integer, or NaN, which is \<open>None\<close>. A detail level is one
  of 0, 1, 2 and is a natural number.
\<close>

type_synonym jsint = "int option"

definition digit_char :: "nat \<Rightarrow> char" where
  "digit_char d = ''0123456789'' ! (d mod 10)"

function dec :: "nat \<Rightarrow> string" where
  "dec n = (if n < 10 then [digit_char n] else dec (n div 10) @ [digit_char (n mod 10)])"
  by pat_completeness auto
termination
  by (relation "measure id") auto

declare dec.simps [simp del]

text \<open>What a template literal \<open>${n}\<close> prints for an integer, for NaN, for a level.\<close>

definition int_text :: "int \<Rightarrow> string" where
  "int_text i = (if i < 0 then CHR ''-'' # dec (nat (- i)) else dec (nat i))"

definition index_text :: "jsint \<Rightarrow> string" where
  "index_text i = (case i of None \<Rightarrow> ''NaN'' | Some n \<Rightarrow> int_text n)"

definition startsWith :: "string \<Rightarrow> string \<Rightarrow> bool" where
  "startsWith s p = (take (length p) s = p)"

section \<open>The feature loader (part\_001)\<close>

definition FEATURE_THRESHOLD :: nat where
  "FEATURE_THRESHOLD = 50"

definition CONCURRENT_LOADS :: nat where
  "CONCURRENT_LOADS = 50"

definition VIEWPORT_BUFFER :: real where
  "VIEWPORT_BUFFER = 0.2"

text \<open>
  An entry of the spatial index: \<open>id\<close> is the text \<open>mapId:index\<close>, \<open>bbox\<close> is
  \<open>[minLng, minLat, maxLng, maxLat]\<close>.
\<close>

record index_entry =
  id_f :: string
  mapId_f :: string
  name_f :: string
  bbox_f :: "real \<times> real \<times> real \<times> real"

text \<open>
  A promise made by \<open>loadFeature\<close> is named by its position in the table of promises.
  What \<open>loadFeature\<close> hands to its caller is either a value it found in the cache or
  such a promise. (\<open>loadFeature\<close> is an \<open>async\<close> function, so the caller holds a
  promise of its own that follows the value or the promise returned; the handle names
  what it follows.)
\<close>

datatype 'g handle = Value 'g | Promise nat

record 'g feature_loader =
  spatialIndex :: "index_entry list option"
  spatialIndexByMap :: "(string, index_entry list) jsmap"
  loadedFeatures :: "(string, 'g) jsmap"
  pendingLoads :: "(string, nat) jsmap"
  initialized :: bool

definition new_FeatureLoader :: "'g feature_loader" where
  "new_FeatureLoader =
     \<lparr>spatialIndex = None, spatialIndexByMap = [], loadedFeatures = [],
      pendingLoads = [], initialized = False\<rparr>"

subsection \<open>\<open>init\<close>: grouping the index by map\<close>

definition group_feature ::
  "(string, index_entry list) jsmap \<Rightarrow> index_entry \<Rightarrow> (string, index_entry list) jsmap" where
  "group_feature m feature =
     (let m1 = (if \<not> map_has m (mapId_f feature) then map_set m (mapId_f feature) [] else m)
      in case map_get m1 (mapId_f feature) of
           Some fs \<Rightarrow> map_set m1 (mapId_f feature) (fs @ [feature])
         | None \<Rightarrow> m1)"

text \<open>
  \<open>init\<close> after the index file has been fetched: \<open>response\<close> is \<open>None\<close> when the
  fetch or the parse failed, else the \<open>features\<close> array of the file.
\<close>

definition init :: "index_entry list option \<Rightarrow> 'g feature_loader \<Rightarrow> 'g feature_loader" where
  "init response fl =
     (if initialized fl then fl
      else case response of
        None \<Rightarrow> fl
      | Some features \<Rightarrow>
          fl\<lparr>spatialIndex := Some features,
             spatialIndexByMap := foldl group_feature (spatialIndexByMap fl) features,
             initialized := True\<rparr>)"

subsection \<open>\<open>supportsLOD\<close>, \<open>getFeatureCount\<close>, \<open>getLODForZoom\<close>\<close>

text \<open>The result of \<open>supportsLOD\<close> is read as a condition: \<open>undefined\<close> counts as false.\<close>

definition supportsLOD :: "'g feature_loader \<Rightarrow> string \<Rightarrow> bool" where
  "supportsLOD fl mapId =
     (if \<not> initialized fl then False
      else case map_get (spatialIndexByMap fl) mapId of
        None \<Rightarrow> False
      | Some features \<Rightarrow> length features \<ge> FEATURE_THRESHOLD)"

definition getFeatureCount :: "'g feature_loader \<Rightarrow> string \<Rightarrow> nat" where
  "getFeatureCount fl mapId =
     (case map_get (spatialIndexByMap fl) mapId of None \<Rightarrow> 0 | Some features \<Rightarrow> length features)"


subsection \<open>\<open>getBufferedBounds\<close>, \<open>getFeaturesInBounds\<close>\<close>

text \<open>
  Leaflet's \<open>LatLngBounds\<close>, as far as the loader uses it: the south-west and north-east
  corners, read by \<open>getSouth\<close>, \<open>getWest\<close>, \<open>getNorth\<close>, \<open>getEast\<close>. The constructor
  \<open>L.latLngBounds(corner1, corner2)\<close> of that library takes two \<open>[lat, lng]\<close> corners
  and extends the bounds over both, so it keeps the smaller and the larger coordinate.
\<close>

record bounds =
  getSouth :: real
  getWest :: real
  getNorth :: real
  getEast :: real

definition latLngBounds :: "real \<times> real \<Rightarrow> real \<times> real \<Rightarrow> bounds" where
  "latLngBounds corner1 corner2 =
     \<lparr>getSouth = min (fst corner1) (fst corner2), getWest = min (snd corner1) (snd corner2),
      getNorth = max (fst corner1) (fst corner2), getEast = max (snd corner1) (snd corner2)\<rparr>"

definition getBufferedBounds :: "bounds \<Rightarrow> bounds" where
  "getBufferedBounds b =
     (let latDiff = getNorth b - getSouth b;
          lngDiff = getEast b - getWest b
      in latLngBounds
           (getSouth b - latDiff * VIEWPORT_BUFFER, getWest b - lngDiff * VIEWPORT_BUFFER)
           (getNorth b + latDiff * VIEWPORT_BUFFER, getEast b + lngDiff * VIEWPORT_BUFFER))"

definition getFeaturesInBounds :: "'g feature_loader \<Rightarrow> string \<Rightarrow> bounds \<Rightarrow> index_entry list" where
  "getFeaturesInBounds fl mapId b =
     (case map_get (spatialIndexByMap fl) mapId of
        None \<Rightarrow> []
      | Some features \<Rightarrow>
          (let bufferedBounds = getBufferedBounds b;
               minLng = getWest bufferedBounds;
               maxLng = getEast bufferedBounds;
               minLat = getSouth bufferedBounds;
               maxLat = getNorth bufferedBounds
           in filter (\<lambda>f. case bbox_f f of (fMinLng, fMinLat, fMaxLng, fMaxLat) \<Rightarrow>
                  \<not> (fMaxLng < minLng \<or> fMinLng > maxLng \<or> fMaxLat < minLat \<or> fMinLat > maxLat))
                features))"

text \<open>
  The query as the specification words it, to compare with: a viewport rectangle
  \<open>[minLon, minLat, maxLon, maxLat]\<close> is expanded on every side by a fraction of its
  width and of its height, and the whole index is scanned for the entries of the
  dataset whose box intersects the expanded rectangle.
\<close>

type_synonym rect = "real \<times> real \<times> real \<times> real"

definition expand_rect :: "real \<Rightarrow> rect \<Rightarrow> rect" where
  "expand_rect fraction r =
     (case r of (minLon, minLat, maxLon, maxLat) \<Rightarrow>
        (minLon - fraction * (maxLon - minLon), minLat - fraction * (maxLat - minLat),
         maxLon + fraction * (maxLon - minLon), maxLat + fraction * (maxLat - minLat)))"

definition rect_intersects :: "rect \<Rightarrow> rect \<Rightarrow> bool" where
  "rect_intersects a b =
     (case a of (aMinLon, aMinLat, aMaxLon, aMaxLat) \<Rightarrow>
      case b of (bMinLon, bMinLat, bMaxLon, bMaxLat) \<Rightarrow>
        aMinLon \<le> bMaxLon \<and> bMinLon \<le> aMaxLon \<and> aMinLat \<le> bMaxLat \<and> bMinLat \<le> aMaxLat)"

definition query_spec :: "index_entry list \<Rightarrow> string \<Rightarrow> rect \<Rightarrow> index_entry list" where
  "query_spec entries datasetId V =
     filter (\<lambda>e. mapId_f e = datasetId \<and> rect_intersects (bbox_f e) (expand_rect (1 / 5) V)) entries"

definition bounds_of_rect :: "rect \<Rightarrow> bounds" where
  "bounds_of_rect r =
     (case r of (minLon, minLat, maxLon, maxLat) \<Rightarrow>
        \<lparr>getSouth = minLat, getWest = minLon, getNorth = maxLat, getEast = maxLon\<rparr>)"

definition rect_of_bounds :: "bounds \<Rightarrow> rect" where
  "rect_of_bounds b = (getWest b, getSouth b, getEast b, getNorth b)"

subsection \<open>\<open>parseFeatureId\<close>\<close>

text \<open>\<open>s.split(c)\<close> for a one-character separator: never empty, one more piece than separators.\<close>

fun split_on :: "char \<Rightarrow> string \<Rightarrow> string list" where
  "split_on c [] = [[]]"
| "split_on c (x # xs) =
     (if x = c then [] # split_on c xs
      else (case split_on c xs of
              p # ps \<Rightarrow> (x # p) # ps
            | [] \<Rightarrow> [[x]]))"

text \<open>
  \<open>parseInt(s, 10)\<close>: leading white space is skipped (the ASCII white space here), then
  an optional sign, then the longest run of decimal digits; with no digit the result is
  NaN. The value is an unbounded integer here (a double in JavaScript).
\<close>

definition is_space :: "char \<Rightarrow> bool" where
  "is_space c = (of_char c \<in> {9, 10, 11, 12, 13, 32 :: nat})"

definition is_digit :: "char \<Rightarrow> bool" where
  "is_digit c = (48 \<le> (of_char c :: nat) \<and> (of_char c :: nat) \<le> 57)"

definition digit_val :: "char \<Rightarrow> nat" where
  "digit_val c = of_char c - 48"

definition parseInt :: "string \<Rightarrow> jsint" where
  "parseInt s =
     (let t = dropWhile is_space s;
          neg = (case t of c # _ \<Rightarrow> c = CHR ''-'' | [] \<Rightarrow> False);
          u = (case t of c # r \<Rightarrow> (if c = CHR ''-'' \<or> c = CHR ''+'' then r else t) | [] \<Rightarrow> t);
          ds = takeWhile is_digit u;
          n = foldl (\<lambda>a c. 10 * a + digit_val c) 0 ds
      in if ds = [] then None else Some (if neg then - int n else int n))"

text \<open>\<open>parts[1]\<close> is \<open>undefined\<close> when the id has no colon, and \<open>parseInt(undefined)\<close> is NaN.\<close>

definition parseFeatureId :: "string \<Rightarrow> jsint" where
  "parseFeatureId ident =
     (case split_on CHR '':'' ident of
        _ # p # _ \<Rightarrow> parseInt p
      | _ \<Rightarrow> None)"

subsection \<open>\<open>loadFeature\<close> and the transport\<close>

definition url_of :: "string \<Rightarrow> jsint \<Rightarrow> nat \<Rightarrow> string" where
  "url_of mapId index lod =
     ''data/features/'' @ mapId @ ''/'' @ index_text index @ ''-lod-'' @ dec lod @ ''.json''"

definition cacheKey_of :: "string \<Rightarrow> jsint \<Rightarrow> nat \<Rightarrow> string" where
  "cacheKey_of mapId index lod = mapId @ '':'' @ index_text index @ '':'' @ dec lod"

text \<open>
  The promise that \<open>loadFeature\<close> builds remembers the \<open>url\<close> and the \<open>cacheKey\<close> its
  callbacks close over. It is pending until the transport answers; then it is resolved,
  with the decoded feature or, after a failure, with \<open>null\<close> (\<open>None\<close>): the \<open>catch\<close>
  handler turns every rejection into \<open>null\<close>, so the promise never rejects.
\<close>

datatype 'g settlement = Pending | Resolved "'g option"

record 'g promise =
  p_url :: string
  p_cacheKey :: string
  p_state :: "'g settlement"

text \<open>What the transport sees: a call of \<open>fetch(url)\<close>, and the end of one (ok or failed).\<close>

datatype event = Fetch string | Done string bool

record 'g world =
  featureLoader :: "'g feature_loader"
  promises :: "'g promise list"
  network :: "event list"

definition loadFeature :: "string \<Rightarrow> jsint \<Rightarrow> nat \<Rightarrow> 'g world \<Rightarrow> 'g handle \<times> 'g world" where
  "loadFeature mapId index lod w =
     (let url = url_of mapId index lod;
          cacheKey = cacheKey_of mapId index lod;
          fl = featureLoader w
      in case map_get (loadedFeatures fl) cacheKey of
           Some geojson \<Rightarrow> (Value geojson, w)
         | None \<Rightarrow>
            (case map_get (pendingLoads fl) url of
               Some p \<Rightarrow> (Promise p, w)
             | None \<Rightarrow>
                (let p = length (promises w)
                 in (Promise p,
                     w\<lparr>featureLoader := fl\<lparr>pendingLoads := map_set (pendingLoads fl) url p\<rparr>,
                       promises := promises w @ [\<lparr>p_url = url, p_cacheKey = cacheKey, p_state = Pending\<rparr>],
                       network := network w @ [Fetch url]\<rparr>))))"

text \<open>
  The transport answers the fetch of promise \<open>p\<close>: \<open>Some geojson\<close> when the response was
  ok and parsed, \<open>None\<close> otherwise. The first case runs the second \<open>then\<close> handler, the
  other the \<open>catch\<close> handler. A promise settles once.
\<close>

definition settle :: "'g option \<Rightarrow> nat \<Rightarrow> 'g world \<Rightarrow> 'g world" where
  "settle response p w =
     (if p < length (promises w) \<and> p_state (promises w ! p) = Pending then
        (let pr = promises w ! p; fl = featureLoader w
         in case response of
              Some geojson \<Rightarrow>
                w\<lparr>featureLoader :=
                     fl\<lparr>loadedFeatures := map_set (loadedFeatures fl) (p_cacheKey pr) geojson,
                        pendingLoads := map_delete (pendingLoads fl) (p_url pr)\<rparr>,
                  promises := (promises w)[p := pr\<lparr>p_state := Resolved (Some geojson)\<rparr>],
                  network := network w @ [Done (p_url pr) True]\<rparr>
            | None \<Rightarrow>
                w\<lparr>featureLoader := fl\<lparr>pendingLoads := map_delete (pendingLoads fl) (p_url pr)\<rparr>,
                  promises := (promises w)[p := pr\<lparr>p_state := Resolved None\<rparr>],
                  network := network w @ [Done (p_url pr) False]\<rparr>)
      else w)"

text \<open>What an observer holding a handle has got: nothing yet, or the value (\<open>null\<close> is \<open>None\<close>).\<close>

definition observed :: "'g world \<Rightarrow> 'g handle \<Rightarrow> 'g option option" where
  "observed w h =
     (case h of
        Value geojson \<Rightarrow> Some (Some geojson)
      | Promise p \<Rightarrow>
          (if p < length (promises w) then
             (case p_state (promises w ! p) of Pending \<Rightarrow> None | Resolved r \<Rightarrow> Some r)
           else None))"

subsection \<open>\<open>loadFeatures\<close>\<close>

text \<open>\<open>batch.map(index => this.loadFeature(mapId, index, lod))\<close>: the calls run in order, at once.\<close>

fun loadFeature_each ::
  "string \<Rightarrow> nat \<Rightarrow> jsint list \<Rightarrow> 'g world \<Rightarrow> 'g handle list \<times> 'g world" where
  "loadFeature_each mapId lod [] w = ([], w)"
| "loadFeature_each mapId lod (index # rest) w =
     (case loadFeature mapId index lod w of
        (h, w1) \<Rightarrow> (case loadFeature_each mapId lod rest w1 of
                      (hs, w2) \<Rightarrow> (h # hs, w2)))"

text \<open>
  \<open>await Promise.all(handles)\<close>. None of the promises rejects, so the wait ends when
  every one of them has settled. The transport is a function \<open>transport\<close> from the url
  to the answer; the awaited promises that are still pending settle in the order of
  the handles. Other callers and the order of the answers are not modelled.
\<close>

definition await_handle :: "(string \<Rightarrow> 'g option) \<Rightarrow> 'g world \<Rightarrow> 'g handle \<Rightarrow> 'g world" where
  "await_handle transport w h =
     (case h of
        Value geojson \<Rightarrow> w
      | Promise p \<Rightarrow>
          (if p < length (promises w) then settle (transport (p_url (promises w ! p))) p w else w))"

definition Promise_all ::
  "(string \<Rightarrow> 'g option) \<Rightarrow> 'g handle list \<Rightarrow> 'g world \<Rightarrow> 'g option list \<times> 'g world" where
  "Promise_all transport hs w =
     (let w1 = foldl (await_handle transport) w hs
      in (map (\<lambda>h. case observed w1 h of Some r \<Rightarrow> r | None \<Rightarrow> None) hs, w1))"

definition slice :: "'a list \<Rightarrow> nat \<Rightarrow> nat \<Rightarrow> 'a list" where
  "slice xs i j = take (j - i) (drop i xs)"

definition not_null :: "'g option list \<Rightarrow> 'g list" where
  "not_null rs = concat (map (\<lambda>r. case r of Some g \<Rightarrow> [g] | None \<Rightarrow> []) rs)"

function loadFeatures_loop ::
  "(string \<Rightarrow> 'g option) \<Rightarrow> string \<Rightarrow> jsint list \<Rightarrow> nat \<Rightarrow> nat \<Rightarrow> 'g list \<Rightarrow> 'g world
     \<Rightarrow> 'g list \<times> 'g world" where
  "loadFeatures_loop transport mapId indices lod i results w =
     (if i < length indices then
        (let batch = slice indices i (i + CONCURRENT_LOADS)
         in case loadFeature_each mapId lod batch w of
              (hs, w1) \<Rightarrow>
                (case Promise_all transport hs w1 of
                   (batchResults, w2) \<Rightarrow>
                     loadFeatures_loop transport mapId indices lod (i + CONCURRENT_LOADS)
                       (results @ not_null batchResults) w2))
      else (results, w))"
  by pat_completeness auto
termination
  by (relation "measure (\<lambda>(transport, mapId, indices, lod, i, results, w). length indices - i)")
     (auto simp: CONCURRENT_LOADS_def)

declare loadFeatures_loop.simps [simp del]

definition loadFeatures ::
  "(string \<Rightarrow> 'g option) \<Rightarrow> string \<Rightarrow> jsint list \<Rightarrow> nat \<Rightarrow> 'g world \<Rightarrow> 'g list \<times> 'g world" where
  "loadFeatures transport mapId indices lod w = loadFeatures_loop transport mapId indices lod 0 [] w"

subsection \<open>\<open>getFeaturesToLoad\<close>, \<open>clearMap\<close>\<close>

text \<open>The inner loop of \<open>getFeaturesToLoad\<close>, from \<open>lod\<close> up to 2, leaving at the first hit.\<close>

function hasGoodEnoughLOD :: "'g feature_loader \<Rightarrow> string \<Rightarrow> jsint \<Rightarrow> nat \<Rightarrow> bool" where
  "hasGoodEnoughLOD fl mapId index lod =
     (if lod \<le> 2 then
        (if map_has (loadedFeatures fl) (cacheKey_of mapId index lod) then True
         else hasGoodEnoughLOD fl mapId index (lod + 1))
      else False)"
  by pat_completeness auto
termination
  by (relation "measure (\<lambda>(fl, mapId, index, lod). 3 - lod)") auto

declare hasGoodEnoughLOD.simps [simp del]

definition getFeaturesToLoad :: "'g feature_loader \<Rightarrow> string \<Rightarrow> string list \<Rightarrow> nat \<Rightarrow> jsint list" where
  "getFeaturesToLoad fl mapId featureIds targetLOD =
     foldl (\<lambda>toLoad ident.
              (let index = parseFeatureId ident
               in if \<not> hasGoodEnoughLOD fl mapId index targetLOD then toLoad @ [index] else toLoad))
       [] featureIds"

text \<open>
  \<open>clearMap\<close> walks the keys of \<open>loadedFeatures\<close> and deletes the matching ones as it
  goes; a key deleted during the walk is not visited again and no key is added, so the
  walk sees the keys the map had at the start.
\<close>

definition clearMap :: "string \<Rightarrow> 'g feature_loader \<Rightarrow> 'g feature_loader" where
  "clearMap mapId fl =
     fl\<lparr>loadedFeatures :=
          foldl (\<lambda>m key. if startsWith key (mapId @ '':'') then map_delete m key else m)
            (loadedFeatures fl) (map_keys (loadedFeatures fl))\<rparr>"

text \<open>The state at start-up: a fresh loader, no promise made, nothing sent.\<close>

definition new_world :: "'g world" where
  "new_world = \<lparr>featureLoader = new_FeatureLoader, promises = [], network = []\<rparr>"

text \<open>
  The batches as the specification words them, to compare with: the list cut, in
  order, into pieces of a fixed width, the last one holding what is left.
\<close>

function batches :: "nat \<Rightarrow> 'a list \<Rightarrow> 'a list list" where
  "batches n xs = (if n = 0 \<or> xs = [] then [] else take n xs # batches n (drop n xs))"
  by pat_completeness auto
termination
  by (relation "measure (\<lambda>(n, xs). length xs)") auto

declare batches.simps [simp del]

text \<open>One turn of the loop of \<open>loadFeatures\<close>: the batch is started, awaited, collected.\<close>

definition run_batch ::
  "(string \<Rightarrow> 'g option) \<Rightarrow> string \<Rightarrow> nat \<Rightarrow> 'g list \<times> 'g world \<Rightarrow> jsint list
     \<Rightarrow> 'g list \<times> 'g world" where
  "run_batch transport mapId lod st batch =
     (case st of (results, w) \<Rightarrow>
      case loadFeature_each mapId lod batch w of
        (hs, w1) \<Rightarrow>
          (case Promise_all transport hs w1 of
             (batchResults, w2) \<Rightarrow> (results @ not_null batchResults, w2)))"

section \<open>The map controller (part\_002)\<close>

subsection \<open>State\<close>

text \<open>
  An entry of \<open>labelEntries\<close>. \<open>layer\<close> is the Leaflet layer object, \<open>feature\<close> the
  GeoJSON feature; both are opaque here and tell entries apart. The priority is a
  number: it is made by \<open>parseFloat(...) || 0\<close>, so it is never NaN.
\<close>

record ('l, 'g) label_entry =
  layer_e :: 'l
  feature_e :: 'g
  text_e :: string
  color_e :: string
  priority_e :: real

text \<open>
  The state of one layer. A Leaflet layer made by \<open>L.geoJSON(geojson)\<close> is named by
  its \<open>geojson\<close>; the layer group is the list of the layers added to it.
\<close>

record ('l, 'g) layer_state =
  group :: "'g list"
  geoJsonLayers :: "'g list"
  labelEntries :: "('l, 'g) label_entry list"
  loaded :: bool
  visible :: bool

text \<open>
  The controller. \<open>this.map\<close> is there or not (\<open>map_ready\<close>); its \<open>getBounds()\<close> and
  \<open>getZoom()\<close> are \<open>view_bounds\<close> and \<open>view_zoom\<close>. A label marker is named by the
  entry it draws.
\<close>

record ('l, 'g) map_controller =
  map_ready :: bool
  view_bounds :: bounds
  view_zoom :: real
  layerStates :: "(string, ('l, 'g) layer_state) jsmap"
  lodLayers :: "string list"
  currentLOD :: "(string, nat) jsmap"
  labelMarkers :: "('l, 'g) label_entry list"
  labelsEnabled :: bool
  textScale :: real

subsection \<open>\<open>updateLabels\<close>\<close>

text \<open>\<open>Math.round\<close> rounds to the nearest integer, halves upwards.\<close>

definition js_round :: "real \<Rightarrow> real" where
  "js_round x = of_int \<lfloor>x + 1 / 2\<rfloor>"

text \<open>\<open>text.split(/\s+/)\<close>: the pieces between the runs of white space.\<close>

function split_ws :: "string \<Rightarrow> string list" where
  "split_ws [] = [[]]"
| "split_ws (c # cs) =
     (if is_space c then [] # split_ws (dropWhile is_space cs)
      else (case split_ws cs of
              p # ps \<Rightarrow> (c # p) # ps
            | [] \<Rightarrow> [[c]]))"
  by pat_completeness auto
termination
  by (relation "measure length") (auto simp: length_dropWhile_le less_Suc_eq_le)

record labelBox =
  left_b :: real
  right_b :: real
  top_b :: real
  bottom_b :: real

text \<open>The wrapped size of a label: \<open>(maxWidth, actualLabelWidth, labelHeight)\<close>.\<close>

definition label_size :: "real \<Rightarrow> string \<Rightarrow> real \<times> real \<times> real" where
  "label_size fontSize str =
     (let charWidth = fontSize * 0.65;
          lineHeight = fontSize * 1.5;
          phi = 1.618;
          totalTextWidth = real (length str) * charWidth;
          area = totalTextWidth * lineHeight;
          idealMaxWidth = sqrt (area * phi);
          words = split_ws str;
          longestWord = foldl (\<lambda>a b. if length a > length b then a else b) [] words;
          minWidthForLongestWord = real (length longestWord) * charWidth + 10;
          maxWidth = max minWidthForLongestWord (min 180 (js_round idealMaxWidth));
          actualLabelWidth = min totalTextWidth maxWidth;
          numLines = snd (foldl (\<lambda>(currentLineWidth, numLines) word.
                        (let wordWidth = real (length word) * charWidth
                         in if currentLineWidth + wordWidth > maxWidth \<and> currentLineWidth > 0
                            then (wordWidth, numLines + 1)
                            else (currentLineWidth + wordWidth + charWidth, numLines)))
                      (0, 1 :: nat) words);
          labelHeight = real numLines * lineHeight
      in (maxWidth, actualLabelWidth, labelHeight))"

definition make_labelBox :: "real \<times> real \<Rightarrow> real \<Rightarrow> real \<Rightarrow> real \<Rightarrow> labelBox" where
  "make_labelBox containerPt actualLabelWidth labelHeight padding =
     \<lparr>left_b = fst containerPt - actualLabelWidth / 2 - padding,
      right_b = fst containerPt + actualLabelWidth / 2 + padding,
      top_b = snd containerPt - padding,
      bottom_b = snd containerPt + labelHeight + padding\<rparr>"

text \<open>The test inside \<open>placedLabels.some(...)\<close>.\<close>

definition boxes_overlap :: "labelBox \<Rightarrow> labelBox \<Rightarrow> bool" where
  "boxes_overlap labelBox existing =
     (\<not> (right_b labelBox < left_b existing \<or> left_b labelBox > right_b existing \<or>
         bottom_b labelBox < top_b existing \<or> top_b labelBox > bottom_b existing))"

text \<open>
  The head of one turn of the placement loop, up to the box. \<open>anchor info\<close> stands for
  the Leaflet and turf calls: it is \<open>None\<close> when the turn is left before a box is built
  (the layer is outside the viewport or has no geometry accessor, or a call throws
  and the \<open>catch\<close> swallows it), else the container point of the label's centre.
\<close>

definition label_box ::
  "(('l, 'g) label_entry \<Rightarrow> (real \<times> real) option) \<Rightarrow> real \<Rightarrow> ('l, 'g) label_entry
     \<Rightarrow> labelBox option" where
  "label_box anchor fontSize info =
     (case anchor info of
        None \<Rightarrow> None
      | Some containerPt \<Rightarrow>
          (case label_size fontSize (text_e info) of
             (maxWidth, actualLabelWidth, labelHeight) \<Rightarrow>
               (let padding = 8
                in Some (make_labelBox containerPt actualLabelWidth labelHeight padding))))"

text \<open>The turn: the state is \<open>placedLabels\<close> and \<open>labelMarkers\<close>.\<close>

definition place_label ::
  "(('l, 'g) label_entry \<Rightarrow> (real \<times> real) option) \<Rightarrow> real
     \<Rightarrow> labelBox list \<times> ('l, 'g) label_entry list \<Rightarrow> ('l, 'g) label_entry
     \<Rightarrow> labelBox list \<times> ('l, 'g) label_entry list" where
  "place_label anchor fontSize st info =
     (case st of (placedLabels, markers) \<Rightarrow>
      case label_box anchor fontSize info of
        None \<Rightarrow> (placedLabels, markers)
      | Some labelBox \<Rightarrow>
          (let overlaps = list_ex (\<lambda>existing. boxes_overlap labelBox existing) placedLabels
           in if overlaps then (placedLabels, markers)
              else (placedLabels @ [labelBox], markers @ [info])))"

text \<open>
  Step 1 of \<open>updateLabels\<close>: \<open>Array.prototype.sort\<close> is stable, and the comparator
  \<open>(b.priority || 0) - (a.priority || 0)\<close> orders by priority, higher first.
\<close>

definition sort_labels :: "('l, 'g) label_entry list \<Rightarrow> ('l, 'g) label_entry list" where
  "sort_labels allLabels = sort_key (\<lambda>a. - priority_e a) allLabels"

definition collect_labels :: "('l, 'g) map_controller \<Rightarrow> ('l, 'g) label_entry list" where
  "collect_labels mc =
     concat (map (\<lambda>(ident, state). if loaded state \<and> visible state then labelEntries state else [])
               (layerStates mc))"

text \<open>The pass over the sorted labels, from no box placed; its result is both lists.\<close>

definition place_all ::
  "(('l, 'g) label_entry \<Rightarrow> (real \<times> real) option) \<Rightarrow> real \<Rightarrow> ('l, 'g) label_entry list
     \<Rightarrow> labelBox list \<times> ('l, 'g) label_entry list" where
  "place_all anchor fontSize allLabels =
     foldl (place_label anchor fontSize) ([], []) (sort_labels allLabels)"

definition updateLabels ::
  "(('l, 'g) label_entry \<Rightarrow> (real \<times> real) option) \<Rightarrow> ('l, 'g) map_controller
     \<Rightarrow> ('l, 'g) map_controller" where
  "updateLabels anchor mc =
     (if \<not> map_ready mc then mc
      else if \<not> labelsEnabled mc then mc\<lparr>labelMarkers := []\<rparr>
      else (let fontSize = js_round (12 * (textScale mc / 100))
            in mc\<lparr>labelMarkers := snd (place_all anchor fontSize (collect_labels mc))\<rparr>))"

subsection \<open>\<open>addFeatureToLayer\<close>, \<open>updateLODLayers\<close>\<close>

text \<open>
  \<open>labels_of mapId geojson\<close> stands for what \<open>onEachFeature\<close> pushes on \<open>labelEntries\<close>
  for the features of \<open>geojson\<close> under the configuration of the map.
\<close>

definition addFeatureToLayer ::
  "(string \<Rightarrow> 'g \<Rightarrow> ('l, 'g) label_entry list) \<Rightarrow> string \<Rightarrow> ('l, 'g) layer_state \<Rightarrow> 'g
     \<Rightarrow> ('l, 'g) layer_state" where
  "addFeatureToLayer labels_of mapId state geojson =
     state\<lparr>group := group state @ [geojson],
           geoJsonLayers := geoJsonLayers state @ [geojson],
           labelEntries := labelEntries state @ labels_of mapId geojson\<rparr>"

text \<open>
  \<open>updateLODLayers\<close> is an \<open>async\<close> function: it runs without interruption from its
  call to its first \<open>await\<close>, and again from the moment the awaited \<open>loadFeatures\<close>
  hands back its features to the next \<open>await\<close> or to the end. What the rest of the
  program does while it waits (the answers of the transport, another handler: both
  \<open>moveend\<close> and \<open>zoomend\<close> call \<open>updateLODLayers\<close>) is not part of the function, so
  the function is modelled piece by piece, and the state it resumes in is whatever
  the world has become.

  The head of one turn of the loop, for the layer \<open>mapId\<close>, up to the call of
  \<open>loadFeatures\<close>: it looks at the layer, and when the level has changed it removes the
  drawn layers, empties the lists of the layer state, clears the cache of the map and
  collects the indices of all visible features. The layer state is an object shared
  with \<open>layerStates\<close>, so what is done to it shows there. The head says what is to be
  loaded: nothing, all visible features after a change of level (\<open>Reload\<close>), or the
  features not yet loaded (\<open>TopUp\<close>).
\<close>

datatype load_request = NoLoad | Reload "jsint list" | TopUp "jsint list"

definition lod_turn_start ::
  "bounds \<Rightarrow> nat \<Rightarrow> ('l, 'g) map_controller \<times> 'g world \<Rightarrow> string
     \<Rightarrow> (('l, 'g) map_controller \<times> 'g world) \<times> load_request" where
  "lod_turn_start bnds newLOD st mapId =
     (case st of (mc, w) \<Rightarrow>
      case map_get (layerStates mc) mapId of
        None \<Rightarrow> ((mc, w), NoLoad)
      | Some state \<Rightarrow>
          if \<not> visible state then ((mc, w), NoLoad)
          else
            (let lodChanged = (map_get (currentLOD mc) mapId \<noteq> Some newLOD);
                 visibleFeatures = getFeaturesInBounds (featureLoader w) mapId bnds;
                 indices = getFeaturesToLoad (featureLoader w) mapId (map id_f visibleFeatures) newLOD
             in if lodChanged then
                  (let state1 = state\<lparr>group := foldl (\<lambda>g layer. removeAll layer g) (group state)
                                                   (geoJsonLayers state),
                                      geoJsonLayers := [], labelEntries := []\<rparr>;
                       mc1 = mc\<lparr>layerStates := map_set (layerStates mc) mapId state1\<rparr>;
                       w1 = w\<lparr>featureLoader := clearMap mapId (featureLoader w)\<rparr>;
                       allIndices = map (\<lambda>f. parseFeatureId (id_f f)) visibleFeatures
                   in ((mc1, w1), Reload allIndices))
                else if length indices > 0 then ((mc, w), TopUp indices)
                else ((mc, w), NoLoad)))"

text \<open>
  The tail of the turn, run when the awaited \<open>loadFeatures\<close> has returned its features
  (or at once, with no feature, when the level has changed and nothing is visible):
  the features are added to the layer, after a change of level the level shown is
  set, and the labels are placed again. (When the layer has left \<open>layerStates\<close> in the
  meantime, the features go to the orphaned state object and nothing of them shows.)
\<close>

definition lod_turn_finish ::
  "(('l, 'g) label_entry \<Rightarrow> (real \<times> real) option) \<Rightarrow> (string \<Rightarrow> 'g \<Rightarrow> ('l, 'g) label_entry list)
     \<Rightarrow> nat \<Rightarrow> string \<Rightarrow> bool \<Rightarrow> ('l, 'g) map_controller \<Rightarrow> 'g list \<Rightarrow> ('l, 'g) map_controller" where
  "lod_turn_finish anchor labels_of newLOD mapId lodChanged mc features =
     (let mc2 = (case map_get (layerStates mc) mapId of
                   Some state \<Rightarrow>
                     mc\<lparr>layerStates := map_set (layerStates mc) mapId
                           (foldl (addFeatureToLayer labels_of mapId) state features)\<rparr>
                 | None \<Rightarrow> mc);
          mc3 = (if lodChanged then mc2\<lparr>currentLOD := map_set (currentLOD mc2) mapId newLOD\<rparr>
                 else mc2)
      in updateLabels anchor mc3)"

text \<open>
  Where the function stands when it gives up control: at its end, or at the \<open>await\<close> of
  a turn. In the second case the frame keeps the locals the rest of the function reads:
  the bounds and the level fixed at the head of the function, the layer of the turn,
  whether its level has changed, the indices \<open>loadFeatures\<close> is called with, and the
  layers still to visit (those \<open>lodLayers\<close> held when the function was called).
\<close>

datatype pass = Finished | Awaiting bounds nat string bool "jsint list" "string list"

text \<open>
  The loop from the head of a turn on, as far as it runs without waiting. A layer that
  is skipped or needs nothing does not wait, and neither does a changed layer with no
  visible feature (\<open>allIndices.length > 0\<close> fails, the \<open>await\<close> is not reached).
\<close>

fun lod_pass ::
  "(('l, 'g) label_entry \<Rightarrow> (real \<times> real) option) \<Rightarrow> (string \<Rightarrow> 'g \<Rightarrow> ('l, 'g) label_entry list)
     \<Rightarrow> bounds \<Rightarrow> nat \<Rightarrow> ('l, 'g) map_controller \<times> 'g world \<Rightarrow> string list
     \<Rightarrow> (('l, 'g) map_controller \<times> 'g world) \<times> pass" where
  "lod_pass anchor labels_of bnds newLOD st [] = (st, Finished)"
| "lod_pass anchor labels_of bnds newLOD st (mapId # rest) =
     (case lod_turn_start bnds newLOD st mapId of
        (st1, NoLoad) \<Rightarrow> lod_pass anchor labels_of bnds newLOD st1 rest
      | ((mc1, w1), Reload allIndices) \<Rightarrow>
          if length allIndices > 0
          then ((mc1, w1), Awaiting bnds newLOD mapId True allIndices rest)
          else lod_pass anchor labels_of bnds newLOD
                 (lod_turn_finish anchor labels_of newLOD mapId True mc1 [], w1) rest
      | ((mc1, w1), TopUp indices) \<Rightarrow>
          ((mc1, w1), Awaiting bnds newLOD mapId False indices rest))"


text \<open>
  The function resumed: \<open>loadFeatures\<close> has handed back \<open>features\<close>, the world is \<open>st\<close>.
  The tail of the suspended turn runs, then the loop goes on.
\<close>

fun updateLODLayers_resume ::
  "(('l, 'g) label_entry \<Rightarrow> (real \<times> real) option) \<Rightarrow> (string \<Rightarrow> 'g \<Rightarrow> ('l, 'g) label_entry list)
     \<Rightarrow> pass \<Rightarrow> 'g list \<Rightarrow> ('l, 'g) map_controller \<times> 'g world
     \<Rightarrow> (('l, 'g) map_controller \<times> 'g world) \<times> pass" where
  "updateLODLayers_resume anchor labels_of Finished features st = (st, Finished)"
| "updateLODLayers_resume anchor labels_of (Awaiting bnds newLOD mapId lodChanged indices rest) features st =
     lod_pass anchor labels_of bnds newLOD
       (lod_turn_finish anchor labels_of newLOD mapId lodChanged (fst st) features, snd st) rest"

text \<open>The urls the transport was asked for, in order, read from its log.\<close>

definition fetched :: "event list \<Rightarrow> string list" where
  "fetched events = concat (map (\<lambda>e. case e of Fetch u \<Rightarrow> [u] | Done u ok \<Rightarrow> []) events)"

text \<open>The points a box covers, and one entry standing before another in a list.\<close>

definition box_points :: "labelBox \<Rightarrow> (real \<times> real) set" where
  "box_points b = {(x, y). left_b b \<le> x \<and> x \<le> right_b b \<and> top_b b \<le> y \<and> y \<le> bottom_b b}"

definition before :: "'a \<Rightarrow> 'a \<Rightarrow> 'a list \<Rightarrow> bool" where
  "before x y xs = (x \<in> set (takeWhile (\<lambda>z. z \<noteq> y) xs))"

text \<open>Sample labels for the concrete checks: one-word names at three places of the screen.\<close>

definition sample_label :: "nat \<Rightarrow> string \<Rightarrow> real \<Rightarrow> (nat, unit) label_entry" where
  "sample_label n str p = \<lparr>layer_e = n, feature_e = (), text_e = str, color_e = ''#3388ff'', priority_e = p\<rparr>"

definition sample_anchor :: "(nat, unit) label_entry \<Rightarrow> (real \<times> real) option" where
  "sample_anchor info =
     (if layer_e info = 5 then Some (100, 100)
      else if layer_e info = 3 then Some (110, 105)
      else if layer_e info = 7 then Some (400, 300)
      else None)"

text \<open>
  A sample request for the concrete checks: 120 indices, and a transport that fails for
  feature 60 and answers every other url with the url itself.
\<close>

definition sample_indices :: "jsint list" where
  "sample_indices = map (\<lambda>n. Some (int n)) [0..<120]"

definition sample_transport :: "string \<Rightarrow> string option" where
  "sample_transport u = (if u = url_of ''wards'' (Some 60) 2 then None else Some u)"

text \<open>A transport that fails for every url.\<close>

definition failing_transport :: "string \<Rightarrow> string option" where
  "failing_transport u = None"





section \<open>Properties of the feature loader\<close>

subsection \<open>The index grouped by \<open>init\<close>\<close>

lemma map_of_group_feature:
  "map_of (group_feature m f) D =
     (if mapId_f f = D then Some ((case map_of m D of None \<Rightarrow> [] | Some fs \<Rightarrow> fs) @ [f])
      else map_of m D)"
  by (auto simp: group_feature_def map_has_def map_set_def map_get_def update_conv Let_def
           split: option.splits)

lemma map_of_foldl_group_feature:
  "map_of (foldl group_feature m fs) D =
     (if \<exists>f\<in>set fs. mapId_f f = D
      then Some ((case map_of m D of None \<Rightarrow> [] | Some xs \<Rightarrow> xs) @ filter (\<lambda>f. mapId_f f = D) fs)
      else map_of m D)"
proof (induction fs arbitrary: m)
  case Nil
  then show ?case by simp
next
  case (Cons f fs)
  show ?case
    by (simp add: Cons.IH map_of_group_feature split: option.splits)
qed

lemma index_of_init:
  "map_get (spatialIndexByMap (init (Some entries) new_FeatureLoader)) D =
     (if \<exists>f\<in>set entries. mapId_f f = D then Some (filter (\<lambda>f. mapId_f f = D) entries) else None)"
  by (simp add: init_def new_FeatureLoader_def map_get_def map_of_foldl_group_feature)

lemma supportsLOD_init:
  "supportsLOD (init (Some entries) new_FeatureLoader) D
     \<longleftrightarrow> length (filter (\<lambda>f. mapId_f f = D) entries) \<ge> 50"
  using index_of_init[of entries D]
  by (auto simp: supportsLOD_def FEATURE_THRESHOLD_def init_def new_FeatureLoader_def
           split: option.splits)

text \<open>
  C8. \<open>supportsLOD\<close> compares with \<open>>=\<close>: a dataset of exactly 50 features, which does
  not exceed the threshold of 50, is reported as supporting per-feature loading. The
  comment at \<open>FEATURE_THRESHOLD\<close> says the loading is for maps with more than 50 features.
\<close>

theorem supportsLOD_fifty:
  "length (map (\<lambda>i. \<lparr>id_f = ''wards:'' @ dec i, mapId_f = ''wards'', name_f = dec i,
                       bbox_f = (0, 0, 1, 1)\<rparr>) [0..<50]) = 50
   \<and> supportsLOD
        (init (Some (map (\<lambda>i. \<lparr>id_f = ''wards:'' @ dec i, mapId_f = ''wards'', name_f = dec i,
                                 bbox_f = (0, 0, 1, 1)\<rparr>) [0..<50]))
           (new_FeatureLoader :: unit feature_loader))
        ''wards''"
  by (simp add: supportsLOD_init filter_map o_def)

subsection \<open>The viewport query\<close>

lemma getBufferedBounds_rect:
  assumes "minLon \<le> maxLon" "minLat \<le> maxLat"
  shows "rect_of_bounds (getBufferedBounds (bounds_of_rect (minLon, minLat, maxLon, maxLat)))
           = expand_rect (1 / 5) (minLon, minLat, maxLon, maxLat)"
proof -
  have a: "minLat - (maxLat - minLat) / 5 \<le> maxLat + (maxLat - minLat) / 5"
    using assms by argo
  have b: "minLon - (maxLon - minLon) / 5 \<le> maxLon + (maxLon - minLon) / 5"
    using assms by argo
  show ?thesis
    using a b
    by (simp add: getBufferedBounds_def bounds_of_rect_def rect_of_bounds_def expand_rect_def
          latLngBounds_def VIEWPORT_BUFFER_def Let_def min_def max_def)
qed

lemma getFeaturesInBounds_filter:
  "getFeaturesInBounds (init (Some entries) new_FeatureLoader) D b =
     filter (\<lambda>e. mapId_f e = D \<and> rect_intersects (bbox_f e) (rect_of_bounds (getBufferedBounds b)))
       entries"
proof -
  have "filter (\<lambda>f. case bbox_f f of (fMinLng, fMinLat, fMaxLng, fMaxLat) \<Rightarrow>
                  \<not> (fMaxLng < getWest bb \<or> fMinLng > getEast bb
                     \<or> fMaxLat < getSouth bb \<or> fMinLat > getNorth bb))
          (filter (\<lambda>f. mapId_f f = D) entries)
        = filter (\<lambda>e. mapId_f e = D \<and> rect_intersects (bbox_f e) (rect_of_bounds bb)) entries"
    for bb
    by (auto simp: rect_intersects_def rect_of_bounds_def split: prod.splits intro!: filter_cong)
  then show ?thesis
    by (auto simp: getFeaturesInBounds_def index_of_init Let_def filter_empty_conv)
qed

text \<open>
  C3. On the index that \<open>init\<close> has grouped, \<open>getFeaturesInBounds\<close> returns, in index
  order, exactly the entries of the dataset whose box intersects the viewport expanded
  by a fifth of its width and of its height on every side: the brute-force scan of the
  specification. The viewport \<open>[-7.0, 54.0, -6.0, 54.5]\<close> buffers to
  \<open>[-7.2, 53.9, -5.8, 54.6]\<close>; the box \<open>[-6.5, 54.1, -6.4, 54.2]\<close> is returned and the
  box \<open>[-8.0, 54.1, -7.5, 54.2]\<close> is not. (Coordinates are reals; a viewport has its
  smaller coordinates first, as every Leaflet bounds object has.)
\<close>

theorem query_bruteforce:
  "(minLon \<le> maxLon \<and> minLat \<le> maxLat \<longrightarrow>
      getFeaturesInBounds (init (Some entries) (new_FeatureLoader :: 'g feature_loader)) D
          (bounds_of_rect (minLon, minLat, maxLon, maxLat))
        = query_spec entries D (minLon, minLat, maxLon, maxLat))
   \<and> rect_of_bounds (getBufferedBounds (bounds_of_rect (-7, 54, -6, 54.5))) = (-7.2, 53.9, -5.8, 54.6)
   \<and> getFeaturesInBounds
        (init (Some [\<lparr>id_f = ''wards:0'', mapId_f = ''wards'', name_f = ''A'',
                       bbox_f = (-6.5, 54.1, -6.4, 54.2)\<rparr>,
                     \<lparr>id_f = ''wards:1'', mapId_f = ''wards'', name_f = ''B'',
                       bbox_f = (-8, 54.1, -7.5, 54.2)\<rparr>])
           (new_FeatureLoader :: 'g feature_loader))
        ''wards'' (bounds_of_rect (-7, 54, -6, 54.5))
      = [\<lparr>id_f = ''wards:0'', mapId_f = ''wards'', name_f = ''A'',
           bbox_f = (-6.5, 54.1, -6.4, 54.2)\<rparr>]"
proof (intro conjI impI)
  assume "minLon \<le> maxLon \<and> minLat \<le> maxLat"
  then show "getFeaturesInBounds (init (Some entries) (new_FeatureLoader :: 'g feature_loader)) D
          (bounds_of_rect (minLon, minLat, maxLon, maxLat))
        = query_spec entries D (minLon, minLat, maxLon, maxLat)"
    by (simp add: getFeaturesInBounds_filter getBufferedBounds_rect query_spec_def)
next
  show "rect_of_bounds (getBufferedBounds (bounds_of_rect (-7, 54, -6, 54.5)))
          = (-7.2, 53.9, -5.8, 54.6)"
    by (simp add: getBufferedBounds_rect expand_rect_def)
next
  show "getFeaturesInBounds
        (init (Some [\<lparr>id_f = ''wards:0'', mapId_f = ''wards'', name_f = ''A'',
                       bbox_f = (-6.5, 54.1, -6.4, 54.2)\<rparr>,
                     \<lparr>id_f = ''wards:1'', mapId_f = ''wards'', name_f = ''B'',
                       bbox_f = (-8, 54.1, -7.5, 54.2)\<rparr>])
           (new_FeatureLoader :: 'g feature_loader))
        ''wards'' (bounds_of_rect (-7, 54, -6, 54.5))
      = [\<lparr>id_f = ''wards:0'', mapId_f = ''wards'', name_f = ''A'',
           bbox_f = (-6.5, 54.1, -6.4, 54.2)\<rparr>]"
    by (simp add: getFeaturesInBounds_filter getBufferedBounds_rect expand_rect_def
          rect_intersects_def)
qed

theorem query_bruteforce_witness:
  "((0::real) \<le> 10 \<and> (0::real) \<le> 5) \<and>
   getFeaturesInBounds
     (init (Some [\<lparr>id_f = ''rivers:0'', mapId_f = ''rivers'', name_f = ''Bann'', bbox_f = (11, 1, 12, 2)\<rparr>,
                  \<lparr>id_f = ''wards:0'', mapId_f = ''wards'', name_f = ''A'', bbox_f = (11, 1, 12, 2)\<rparr>,
                  \<lparr>id_f = ''rivers:1'', mapId_f = ''rivers'', name_f = ''Lagan'', bbox_f = (13, 1, 14, 2)\<rparr>])
        (new_FeatureLoader :: unit feature_loader)) ''rivers'' (bounds_of_rect (0, 0, 10, 5))
   = [\<lparr>id_f = ''rivers:0'', mapId_f = ''rivers'', name_f = ''Bann'', bbox_f = (11, 1, 12, 2)\<rparr>]"
  using query_bruteforce[where 'g = unit, of 0 10 0 5
     "[\<lparr>id_f = ''rivers:0'', mapId_f = ''rivers'', name_f = ''Bann'', bbox_f = (11, 1, 12, 2)\<rparr>,
       \<lparr>id_f = ''wards:0'', mapId_f = ''wards'', name_f = ''A'', bbox_f = (11, 1, 12, 2)\<rparr>,
       \<lparr>id_f = ''rivers:1'', mapId_f = ''rivers'', name_f = ''Lagan'', bbox_f = (13, 1, 14, 2)\<rparr>]"
     "''rivers''"]
  by (simp add: query_spec_def expand_rect_def rect_intersects_def)

subsection \<open>\<open>clearMap\<close>\<close>

lemma foldl_delete_filter:
  "foldl (\<lambda>m key. if P key then map_delete m key else m) m ks
     = filter (\<lambda>kv. \<not> (fst kv \<in> set ks \<and> P (fst kv))) m"
proof (induction ks arbitrary: m)
  case Nil
  show ?case by simp
next
  case (Cons k ks)
  show ?case
    by (auto simp: Cons.IH map_delete_def AList.delete_eq intro!: filter_cong)
qed

lemma clearMap_filter:
  "loadedFeatures (clearMap D fl)
     = filter (\<lambda>kv. \<not> startsWith (fst kv) (D @ '':'')) (loadedFeatures fl)"
  unfolding clearMap_def
  by (auto simp: foldl_delete_filter map_keys_def intro!: filter_cong)

lemma map_of_filter_prefix:
  "map_of (filter (\<lambda>kv. \<not> startsWith (fst kv) p) m) k
     = (if startsWith k p then None else map_of m k)"
  by (induction m) auto

lemma clearMap_get:
  "map_get (loadedFeatures (clearMap D fl)) k =
     (if startsWith k (D @ '':'') then None else map_get (loadedFeatures fl) k)"
  by (simp add: clearMap_filter map_get_def map_of_filter_prefix)

lemma cacheKey_startsWith: "startsWith (cacheKey_of D i l) (D @ '':'')"
  by (simp add: startsWith_def cacheKey_of_def)

lemma clearMap_pending: "pendingLoads (clearMap D fl) = pendingLoads fl"
  by (simp add: clearMap_def)

text \<open>
  C9, as the code has it. \<open>clearMap\<close> drops every cached feature of the dataset: after
  the call no key \<open>(D, index, level)\<close> is in \<open>loadedFeatures\<close>. It does not touch the
  table of requests in flight: \<open>pendingLoads\<close> is what it was.
\<close>

theorem clearMap_drops_cache_only:
  "map_get (loadedFeatures (clearMap D fl)) (cacheKey_of D i l) = None
   \<and> \<not> map_has (loadedFeatures (clearMap D fl)) (cacheKey_of D i l)
   \<and> pendingLoads (clearMap D fl) = pendingLoads fl"
  by (simp add: clearMap_get cacheKey_startsWith clearMap_pending map_has_def
        map_get_def[symmetric])

text \<open>
  C9 as stated fails: a request for feature 0 of \<open>wards\<close> is in flight, \<open>clearMap\<close> of
  \<open>wards\<close> runs, and the request is still in the table.
\<close>

theorem clearMap_keeps_pending_counterexample:
  "map_has
     (pendingLoads (clearMap ''wards''
        (featureLoader (snd (loadFeature ''wards'' (Some 0) 0 (new_world :: unit world))))))
     (url_of ''wards'' (Some 0) 0)"
  by (simp add: clearMap_pending loadFeature_def new_world_def new_FeatureLoader_def map_get_def
        map_set_def map_has_def Let_def)

lemma startsWith_prefix: "startsWith s p \<longleftrightarrow> prefix p s"
  by (auto simp: startsWith_def prefix_def) (metis append_eq_conv_conj)

lemma startsWith_key_cases:
  assumes "startsWith (D' @ CHR '':'' # r) (D @ '':'')"
  shows "D = D' \<or> startsWith D' (D @ '':'') \<or> startsWith D (D' @ '':'')"
proof -
  have 1: "prefix (D @ '':'') ((D' @ '':'') @ r)"
    using assms by (simp add: startsWith_prefix)
  have 2: "prefix (D' @ '':'') ((D' @ '':'') @ r)"
    by simp
  from prefix_same_cases[OF 1 2]
  have "prefix (D @ '':'') (D' @ '':'') \<or> prefix (D' @ '':'') (D @ '':'')" .
  then show ?thesis
    by (auto simp: startsWith_prefix)
qed

text \<open>
  C10, as the code has it. \<open>clearMap D\<close> deletes exactly the cache entries whose key
  begins with \<open>D:\<close> and keeps the others in their order. The cached value of
  \<open>(D', i, l)\<close> is unchanged for every other dataset \<open>D'\<close> provided that neither id is
  the other one followed by a colon and more text; two different ids without a colon
  always satisfy that.
\<close>

theorem clearMap_frame:
  assumes "D' \<noteq> D" and "\<not> startsWith D' (D @ '':'')" and "\<not> startsWith D (D' @ '':'')"
  shows "loadedFeatures (clearMap D fl)
           = filter (\<lambda>kv. \<not> startsWith (fst kv) (D @ '':'')) (loadedFeatures fl)
         \<and> map_get (loadedFeatures (clearMap D fl)) (cacheKey_of D' i l)
             = map_get (loadedFeatures fl) (cacheKey_of D' i l)"
proof -
  have "\<not> startsWith (cacheKey_of D' i l) (D @ '':'')"
    using startsWith_key_cases[of D' "index_text i @ '':'' @ dec l" D] assms
    by (auto simp: cacheKey_of_def)
  then show ?thesis
    using clearMap_get[of D fl "cacheKey_of D' i l"] clearMap_filter[of D fl] by simp
qed

theorem clearMap_frame_witness:
  "(''rivers'' \<noteq> ''wards'' \<and> \<not> startsWith ''rivers'' (''wards'' @ '':'')
      \<and> \<not> startsWith ''wards'' (''rivers'' @ '':''))
   \<and> map_get (loadedFeatures (clearMap ''wards''
        \<lparr>spatialIndex = None, spatialIndexByMap = [],
         loadedFeatures = [(''wards:3:2'', True), (''rivers:3:2'', False)],
         pendingLoads = [], initialized = True\<rparr>)) (cacheKey_of ''rivers'' (Some 3) 2)
     = Some False"
proof -
  have h1: "''rivers'' \<noteq> ''wards''" by simp
  have h2: "\<not> startsWith ''rivers'' (''wards'' @ '':'')" by (simp add: startsWith_def)
  have h3: "\<not> startsWith ''wards'' (''rivers'' @ '':'')" by (simp add: startsWith_def)
  have k: "cacheKey_of ''rivers'' (Some 3) 2 = ''rivers:3:2''"
    by (simp add: cacheKey_of_def index_text_def int_text_def dec.simps digit_char_def)
  have "map_get (loadedFeatures (clearMap ''wards''
        \<lparr>spatialIndex = None, spatialIndexByMap = [],
         loadedFeatures = [(''wards:3:2'', True), (''rivers:3:2'', False)],
         pendingLoads = [], initialized = True\<rparr>)) (cacheKey_of ''rivers'' (Some 3) 2)
     = map_get [(''wards:3:2'', True), (''rivers:3:2'', False)] (cacheKey_of ''rivers'' (Some 3) 2)"
    using conjunct2[OF clearMap_frame[OF h1 h2 h3, of
        "\<lparr>spatialIndex = None, spatialIndexByMap = [],
          loadedFeatures = [(''wards:3:2'', True), (''rivers:3:2'', False)],
          pendingLoads = [], initialized = True\<rparr>" "Some 3" 2]]
    by simp
  also have "\<dots> = Some False"
    unfolding k by (simp add: map_get_def)
  finally show ?thesis using h1 h2 h3 by simp
qed

text \<open>
  C10 as stated fails for the datasets \<open>a\<close> and \<open>a:b\<close>: clearing \<open>a\<close> deletes the cached
  feature 1 of \<open>a:b\<close>, whose key \<open>a:b:1:0\<close> begins with \<open>a:\<close>.
\<close>

theorem clearMap_frame_counterexample:
  "map_get (loadedFeatures (clearMap ''a''
       \<lparr>spatialIndex = None, spatialIndexByMap = [],
        loadedFeatures = [(cacheKey_of ''a:b'' (Some 1) 0, True)],
        pendingLoads = [], initialized = True\<rparr>)) (cacheKey_of ''a:b'' (Some 1) 0)
   \<noteq> map_get (loadedFeatures
       \<lparr>spatialIndex = None, spatialIndexByMap = [],
        loadedFeatures = [(cacheKey_of ''a:b'' (Some 1) 0, True)],
        pendingLoads = [], initialized = True\<rparr>) (cacheKey_of ''a:b'' (Some 1) 0)"
  unfolding clearMap_get by (simp add: map_get_def startsWith_def cacheKey_of_def)

subsection \<open>Loaded features and the fetch set\<close>

lemma hasGoodEnoughLOD_hit:
  "m \<le> L \<Longrightarrow> L \<le> 2 \<Longrightarrow> map_has (loadedFeatures fl) (cacheKey_of D i L)
     \<Longrightarrow> hasGoodEnoughLOD fl D i m"
proof (induction fl D i m rule: hasGoodEnoughLOD.induct)
  case (1 fl mapId index lod)
  show ?case
  proof (cases "map_has (loadedFeatures fl) (cacheKey_of mapId index lod)")
    case True
    then show ?thesis using 1 by (subst hasGoodEnoughLOD.simps) simp
  next
    case False
    then have "lod \<noteq> L" using 1 by auto
    then have "lod + 1 \<le> L" using 1 by simp
    then have "hasGoodEnoughLOD fl mapId index (lod + 1)"
      using 1 False by simp
    then show ?thesis using 1 False by (subst hasGoodEnoughLOD.simps) simp
  qed
qed

lemma getFeaturesToLoad_filter_acc:
  "foldl (\<lambda>toLoad ident.
              (let index = parseFeatureId ident
               in if \<not> hasGoodEnoughLOD fl mapId index targetLOD then toLoad @ [index] else toLoad))
       acc featureIds
   = acc @ filter (\<lambda>index. \<not> hasGoodEnoughLOD fl mapId index targetLOD)
             (map parseFeatureId featureIds)"
  by (induction featureIds arbitrary: acc) (auto simp: Let_def)

lemma getFeaturesToLoad_filter:
  "getFeaturesToLoad fl mapId featureIds targetLOD
     = filter (\<lambda>index. \<not> hasGoodEnoughLOD fl mapId index targetLOD) (map parseFeatureId featureIds)"
  by (simp add: getFeaturesToLoad_def getFeaturesToLoad_filter_acc)

lemma map_has_set: "map_has (map_set m k v) k' \<longleftrightarrow> k' = k \<or> map_has m k'"
  by (auto simp: map_has_def map_set_def update_conv)

lemma settle_success_cached:
  assumes "p < length (promises w)" "p_state (promises w ! p) = Pending"
  shows "map_has (loadedFeatures (featureLoader (settle (Some g) p w))) (p_cacheKey (promises w ! p))"
  using assms by (simp add: settle_def Let_def map_has_set)

text \<open>
  C6. The load of \<open>(D, i)\<close> at level \<open>L\<close> is the pending promise \<open>p\<close>; it succeeds when
  the transport answers with a feature. Right after that, for every \<open>m \<le> L \<le> 2\<close>, the
  scan of the levels \<open>m..2\<close> finds the key, and \<open>getFeaturesToLoad\<close> at target level
  \<open>m\<close> leaves \<open>i\<close> out, whatever ids it is given.
\<close>

theorem load_then_hasAtOrAbove:
  assumes "p < length (promises w)" and "p_state (promises w ! p) = Pending"
    and "p_cacheKey (promises w ! p) = cacheKey_of D i L"
    and "m \<le> L" and "L \<le> 2"
  shows "hasGoodEnoughLOD (featureLoader (settle (Some g) p w)) D i m
         \<and> i \<notin> set (getFeaturesToLoad (featureLoader (settle (Some g) p w)) D featureIds m)"
proof -
  have "map_has (loadedFeatures (featureLoader (settle (Some g) p w))) (cacheKey_of D i L)"
    using settle_success_cached[OF assms(1,2)] assms(3) by simp
  then have "hasGoodEnoughLOD (featureLoader (settle (Some g) p w)) D i m"
    using assms(4,5) by (rule hasGoodEnoughLOD_hit[rotated 2])
  then show ?thesis by (simp add: getFeaturesToLoad_filter)
qed

lemma loadFeature_fresh_eval:
  "loadFeature ''wards'' (Some 7) 2 (new_world :: unit world) =
     (Promise 0,
      \<lparr>featureLoader = new_FeatureLoader\<lparr>pendingLoads := [(''data/features/wards/7-lod-2.json'', 0)]\<rparr>,
       promises = [\<lparr>p_url = ''data/features/wards/7-lod-2.json'', p_cacheKey = ''wards:7:2'', p_state = Pending\<rparr>],
       network = [Fetch ''data/features/wards/7-lod-2.json'']\<rparr>)"
  by (simp add: loadFeature_def new_world_def new_FeatureLoader_def map_get_def map_set_def Let_def
        url_of_def cacheKey_of_def index_text_def int_text_def dec.simps digit_char_def)

theorem load_then_hasAtOrAbove_witness:
  "(0 < length (promises (snd (loadFeature ''wards'' (Some 7) 2 (new_world :: unit world))))
    \<and> p_state (promises (snd (loadFeature ''wards'' (Some 7) 2 (new_world :: unit world))) ! 0) = Pending
    \<and> p_cacheKey (promises (snd (loadFeature ''wards'' (Some 7) 2 (new_world :: unit world))) ! 0)
        = cacheKey_of ''wards'' (Some 7) 2
    \<and> (0::nat) \<le> 2 \<and> (2::nat) \<le> 2)
   \<and> hasGoodEnoughLOD
       (featureLoader (settle (Some ()) 0 (snd (loadFeature ''wards'' (Some 7) 2 (new_world :: unit world)))))
       ''wards'' (Some 7) 0
   \<and> Some 7 \<notin> set (getFeaturesToLoad
       (featureLoader (settle (Some ()) 0 (snd (loadFeature ''wards'' (Some 7) 2 (new_world :: unit world)))))
       ''wards'' [''wards:7'', ''wards:8''] 0)"
proof -
  let ?w = "snd (loadFeature ''wards'' (Some 7) 2 (new_world :: unit world))"
  have h1: "0 < length (promises ?w)" by (simp add: loadFeature_fresh_eval)
  have h2: "p_state (promises ?w ! 0) = Pending" by (simp add: loadFeature_fresh_eval)
  have h3: "p_cacheKey (promises ?w ! 0) = cacheKey_of ''wards'' (Some 7) 2"
    by (simp add: loadFeature_fresh_eval cacheKey_of_def index_text_def int_text_def dec.simps digit_char_def)
  have h4: "(0::nat) \<le> 2" by simp
  have h5: "(2::nat) \<le> 2" by simp
  from load_then_hasAtOrAbove[OF h1 h2 h3 h4 h5, of "()" "[''wards:7'', ''wards:8'']"] h1 h2 h3
  show ?thesis by simp
qed

section \<open>Properties of the label placement\<close>

lemma boxes_overlap_sym: "boxes_overlap a b = boxes_overlap b a"
  by (auto simp: boxes_overlap_def)

lemma not_overlap_disjoint: "\<not> boxes_overlap a b \<Longrightarrow> box_points a \<inter> box_points b = {}"
  by (auto simp: boxes_overlap_def box_points_def)

lemma place_label_sorted_wrt:
  assumes "sorted_wrt (\<lambda>a b. \<not> boxes_overlap b a) (fst st)"
  shows "sorted_wrt (\<lambda>a b. \<not> boxes_overlap b a) (fst (place_label anchor fontSize st info))"
  using assms
  by (cases st) (auto simp: place_label_def Let_def sorted_wrt_append list_ex_iff split: option.splits)

lemma foldl_place_label_sorted_wrt:
  assumes "sorted_wrt (\<lambda>a b. \<not> boxes_overlap b a) (fst st)"
  shows "sorted_wrt (\<lambda>a b. \<not> boxes_overlap b a) (fst (foldl (place_label anchor fontSize) st infos))"
  using assms
  by (induction infos arbitrary: st) (simp_all add: place_label_sorted_wrt)

lemma sorted_wrt_pairs:
  assumes "sorted_wrt (\<lambda>a b. \<not> boxes_overlap b a) bs" "i < length bs" "j < length bs" "i \<noteq> j"
  shows "\<not> boxes_overlap (bs ! i) (bs ! j)"
proof (cases "i < j")
  case True
  then have "\<not> boxes_overlap (bs ! j) (bs ! i)"
    using assms sorted_wrt_nth_less by blast
  then show ?thesis by (simp add: boxes_overlap_sym)
next
  case False
  then have "j < i" using assms by simp
  then show ?thesis
    using assms sorted_wrt_nth_less by blast
qed

text \<open>
  C1. At every moment of a placement pass (after any number \<open>k\<close> of turns over the
  sorted labels), any two different committed boxes, padding included, fail the
  overlap test of the code, and the rectangles they cover have no point in common.
\<close>

theorem placed_never_overlap:
  assumes "placed = fst (foldl (place_label anchor fontSize) ([], []) (take k (sort_labels allLabels)))"
    and "i < length placed" and "j < length placed" and "i \<noteq> j"
  shows "\<not> boxes_overlap (placed ! i) (placed ! j)
         \<and> box_points (placed ! i) \<inter> box_points (placed ! j) = {}"
proof -
  have "sorted_wrt (\<lambda>a b. \<not> boxes_overlap b a) placed"
    unfolding assms(1) by (rule foldl_place_label_sorted_wrt) simp
  then have "\<not> boxes_overlap (placed ! i) (placed ! j)"
    using assms(2-4) by (rule sorted_wrt_pairs)
  then show ?thesis by (simp add: not_overlap_disjoint)
qed

lemma split_ws_one_word: "list_all (\<lambda>c. \<not> is_space c) str \<Longrightarrow> split_ws str = [str]"
  by (induction str) auto

lemma label_size_one_word:
  assumes "list_all (\<lambda>c. \<not> is_space c) str"
  shows "snd (label_size fontSize str) = (real (length str) * (fontSize * 0.65), fontSize * 1.5)"
  using assms
  by (simp add: label_size_def split_ws_one_word Let_def)

lemma before_sorted_key:
  assumes "sorted (map f s)" "A \<in> set s" "B \<in> set s" "f A < f B"
  shows "before A B s"
proof (rule ccontr)
  assume nb: "\<not> before A B s"
  have s: "s = takeWhile (\<lambda>z. z \<noteq> B) s @ dropWhile (\<lambda>z. z \<noteq> B) s" by simp
  have "dropWhile (\<lambda>z. z \<noteq> B) s \<noteq> []" using assms(3) by (simp add: dropWhile_eq_Nil_conv)
  then obtain r where d: "dropWhile (\<lambda>z. z \<noteq> B) s = B # r"
    by (metis (mono_tags, lifting) hd_dropWhile list.collapse)
  have "A \<in> set (dropWhile (\<lambda>z. z \<noteq> B) s)"
    using nb assms(2) s unfolding before_def by (metis Un_iff set_append)
  then have "A \<in> set r" using d assms(4) by auto
  moreover have "sorted (map f (takeWhile (\<lambda>z. z \<noteq> B) s @ B # r))"
    using assms(1) s d by metis
  ultimately have "f B \<le> f A"
    by (auto simp: sorted_append)
  then show False using assms(4) by simp
qed

lemma takeWhile_filter_commute:
  assumes "P y"
  shows "takeWhile (\<lambda>z. z \<noteq> y) (filter P xs) = filter P (takeWhile (\<lambda>z. z \<noteq> y) xs)"
  using assms by (induction xs) auto

lemma before_filter:
  assumes "P x" "P y"
  shows "before x y (filter P xs) \<longleftrightarrow> before x y xs"
  using assms by (simp add: before_def takeWhile_filter_commute)

lemma before_sort_key_stable:
  assumes "f A = f B" "before A B xs"
  shows "before A B (sort_key f xs)"
proof -
  have "filter (\<lambda>y. f y = f A) (sort_key f xs) = filter (\<lambda>y. f y = f A) xs"
    by (rule sort_key_stable)
  moreover have "before A B (filter (\<lambda>y. f y = f A) xs)"
    using assms by (simp add: before_filter)
  ultimately have "before A B (filter (\<lambda>y. f y = f A) (sort_key f xs))" by simp
  then show ?thesis using assms(1) by (simp add: before_filter)
qed

lemma before_sort_labels:
  assumes "A \<in> set xs" "B \<in> set xs"
    and "priority_e A > priority_e B \<or> (priority_e A = priority_e B \<and> before A B xs)"
  shows "before A B (sort_labels xs)"
  using assms(3)
proof
  assume "priority_e B < priority_e A"
  then show ?thesis
    unfolding sort_labels_def
    using assms(1,2) by (intro before_sorted_key[where f = "\<lambda>a. - priority_e a"]) simp_all
next
  assume "priority_e A = priority_e B \<and> before A B xs"
  then show ?thesis
    unfolding sort_labels_def by (intro before_sort_key_stable) simp_all
qed

lemma foldl_place_label_pair:
  fixes anchor fontSize A B
  defines "box \<equiv> label_box anchor fontSize"
  defines "M \<equiv> filter (\<lambda>c. box c \<noteq> None \<and> c \<noteq> B)"
  assumes "distinct (dn @ rest)"
    and "box A = Some a" "box B = Some b" "boxes_overlap a b" "A \<noteq> B"
    and others: "\<And>c d x y. c \<in> set (dn @ rest) \<Longrightarrow> d \<in> set (dn @ rest) \<Longrightarrow> c \<noteq> d
          \<Longrightarrow> c \<noteq> B \<Longrightarrow> d \<noteq> B \<Longrightarrow> box c = Some x \<Longrightarrow> box d = Some y \<Longrightarrow> \<not> boxes_overlap x y"
    and ord: "B \<in> set rest \<Longrightarrow> A \<in> set dn \<or> before A B rest"
  shows "foldl (place_label anchor fontSize) (map (\<lambda>c. the (box c)) (M dn), M dn) rest
           = (map (\<lambda>c. the (box c)) (M (dn @ rest)), M (dn @ rest))"
  using assms(3) others ord
proof (induction rest arbitrary: dn)
  case Nil
  then show ?case by simp
next
  case (Cons c rest)
  have step: "place_label anchor fontSize (map (\<lambda>c. the (box c)) (M dn), M dn) c
                = (map (\<lambda>c. the (box c)) (M (dn @ [c])), M (dn @ [c]))"
  proof (cases "box c")
    case None
    then show ?thesis by (simp add: place_label_def M_def box_def[symmetric])
  next
    case (Some x)
    show ?thesis
    proof (cases "c = B")
      case True
      then have "A \<in> set dn" using Cons.prems(3) by (auto simp: before_def)
      then have "A \<in> set (M dn)" using assms(4,7) by (simp add: M_def)
      then have "a \<in> set (map (\<lambda>c. the (box c)) (M dn))" using assms(4) by force
      moreover have "boxes_overlap b a" using assms(6) by (simp add: boxes_overlap_sym)
      ultimately have "list_ex (\<lambda>existing. boxes_overlap b existing) (map (\<lambda>c. the (box c)) (M dn))"
        unfolding list_ex_iff by blast
      then show ?thesis using True assms(5)
        by (simp add: place_label_def M_def box_def[symmetric])
    next
      case False
      have "\<not> boxes_overlap x (the (box d))" if "d \<in> set (M dn)" for d
      proof -
        from that have d: "d \<in> set dn" "d \<noteq> B" "box d \<noteq> None" by (auto simp: M_def)
        then have "c \<noteq> d" using Cons.prems(1) by auto
        moreover obtain y where "box d = Some y" using d(3) by auto
        ultimately show ?thesis
          using Cons.prems(2)[of c d x y] d False Some by auto
      qed
      then have "\<not> list_ex (\<lambda>existing. boxes_overlap x existing) (map (\<lambda>c. the (box c)) (M dn))"
        unfolding list_ex_iff by auto
      then show ?thesis using False Some
        by (simp add: place_label_def M_def box_def[symmetric])
    qed
  qed
  have d': "distinct ((dn @ [c]) @ rest)" using Cons.prems(1) by simp
  have ord': "B \<in> set rest \<Longrightarrow> A \<in> set (dn @ [c]) \<or> before A B rest"
  proof -
    assume b: "B \<in> set rest"
    then have "c \<noteq> B" using Cons.prems(1) by auto
    moreover have "A \<in> set dn \<or> before A B (c # rest)" using Cons.prems(3) b by simp
    ultimately show ?thesis by (auto simp: before_def)
  qed
  have "foldl (place_label anchor fontSize) (map (\<lambda>c. the (box c)) (M (dn @ [c])), M (dn @ [c])) rest
          = (map (\<lambda>c. the (box c)) (M ((dn @ [c]) @ rest)), M ((dn @ [c]) @ rest))"
    using Cons.prems(2) by (intro Cons.IH[OF d' _ ord']) auto
  then show ?case using step by simp
qed

text \<open>
  C2. The candidates are different objects (\<open>distinct\<close>). \<open>A\<close> and \<open>B\<close> have boxes that
  overlap, and no two candidates other than \<open>B\<close> have overlapping boxes, which holds in
  particular when \<open>A\<close> and \<open>B\<close> are the only two that overlap. If \<open>A\<close> has the higher
  priority, or the same priority and stands before \<open>B\<close> in the input, then the pass
  commits \<open>A\<close>, drops \<open>B\<close>, and commits every other candidate that has a box, in the
  order of the stable sort by descending priority.
\<close>

theorem overlap_resolution:
  assumes "distinct allLabels" and "A \<in> set allLabels" and "B \<in> set allLabels" and "A \<noteq> B"
    and "label_box anchor fontSize A = Some a" and "label_box anchor fontSize B = Some b"
    and "boxes_overlap a b"
    and "\<forall>c\<in>set allLabels. \<forall>d\<in>set allLabels. c \<noteq> d \<longrightarrow> c \<noteq> B \<longrightarrow> d \<noteq> B \<longrightarrow>
           (\<forall>x y. label_box anchor fontSize c = Some x \<longrightarrow> label_box anchor fontSize d = Some y
                   \<longrightarrow> \<not> boxes_overlap x y)"
    and "priority_e A > priority_e B \<or> (priority_e A = priority_e B \<and> before A B allLabels)"
  shows "snd (place_all anchor fontSize allLabels)
           = filter (\<lambda>c. label_box anchor fontSize c \<noteq> None \<and> c \<noteq> B) (sort_labels allLabels)
         \<and> A \<in> set (snd (place_all anchor fontSize allLabels))
         \<and> B \<notin> set (snd (place_all anchor fontSize allLabels))"
proof -
  let ?s = "sort_labels allLabels"
  have set_s: "set ?s = set allLabels" by (simp add: sort_labels_def)
  have dist: "distinct ([] @ ?s)" using assms(1) by (simp add: sort_labels_def)
  have ord: "before A B ?s" using assms(2,3,9) by (rule before_sort_labels)
  have "foldl (place_label anchor fontSize)
          (map (\<lambda>c. the (label_box anchor fontSize c))
               (filter (\<lambda>c. label_box anchor fontSize c \<noteq> None \<and> c \<noteq> B) []),
           filter (\<lambda>c. label_box anchor fontSize c \<noteq> None \<and> c \<noteq> B) []) ?s
        = (map (\<lambda>c. the (label_box anchor fontSize c))
               (filter (\<lambda>c. label_box anchor fontSize c \<noteq> None \<and> c \<noteq> B) ([] @ ?s)),
           filter (\<lambda>c. label_box anchor fontSize c \<noteq> None \<and> c \<noteq> B) ([] @ ?s))"
    using assms(8) ord set_s
    by (intro foldl_place_label_pair[OF dist assms(5,6,7,4)]) auto
  then have eq: "snd (place_all anchor fontSize allLabels)
           = filter (\<lambda>c. label_box anchor fontSize c \<noteq> None \<and> c \<noteq> B) ?s"
    by (simp add: place_all_def)
  show ?thesis
    using eq assms(2,4,5) set_s by auto
qed

lemma label_box_one_word:
  assumes "list_all (\<lambda>c. \<not> is_space c) (text_e info)" "anchor info = Some pt"
  shows "label_box anchor fontSize info
           = Some (make_labelBox pt (real (length (text_e info)) * (fontSize * 0.65)) (fontSize * 1.5) 8)"
proof -
  have "snd (label_size fontSize (text_e info))
          = (real (length (text_e info)) * (fontSize * 0.65), fontSize * 1.5)"
    by (rule label_size_one_word[OF assms(1)])
  then obtain mw where "label_size fontSize (text_e info)
          = (mw, real (length (text_e info)) * (fontSize * 0.65), fontSize * 1.5)"
    by (metis prod.collapse)
  then show ?thesis using assms(2) by (simp add: label_box_def)
qed

lemma boxA: "label_box sample_anchor 12 (sample_label 5 ''Antrim'' 0)
   = Some \<lparr>left_b = 68.6, right_b = 131.4, top_b = 92, bottom_b = 126\<rparr>"
  by (subst label_box_one_word[where pt = "(100, 100)"])
     (simp_all add: sample_label_def sample_anchor_def is_space_def make_labelBox_def)

lemma boxB: "label_box sample_anchor 12 (sample_label 3 ''Belfast'' 0)
   = Some \<lparr>left_b = 74.7, right_b = 145.3, top_b = 97, bottom_b = 131\<rparr>"
  by (subst label_box_one_word[where pt = "(110, 105)"])
     (simp_all add: sample_label_def sample_anchor_def is_space_def make_labelBox_def)

lemma boxC: "label_box sample_anchor 12 (sample_label 7 ''Coleraine'' 5)
   = Some \<lparr>left_b = 356.9, right_b = 443.1, top_b = 292, bottom_b = 326\<rparr>"
  by (subst label_box_one_word[where pt = "(400, 300)"])
     (simp_all add: sample_label_def sample_anchor_def is_space_def make_labelBox_def)

lemma sample_sorted:
  "sort_labels [sample_label 5 ''Antrim'' 0, sample_label 3 ''Belfast'' 0, sample_label 7 ''Coleraine'' 5]
     = [sample_label 7 ''Coleraine'' 5, sample_label 5 ''Antrim'' 0, sample_label 3 ''Belfast'' 0]"
  by (simp add: sort_labels_def sample_label_def)

lemma sample_pass:
  "foldl (place_label sample_anchor 12) ([], [])
     [sample_label 7 ''Coleraine'' 5, sample_label 5 ''Antrim'' 0, sample_label 3 ''Belfast'' 0]
   = ([\<lparr>left_b = 356.9, right_b = 443.1, top_b = 292, bottom_b = 326\<rparr>,
       \<lparr>left_b = 68.6, right_b = 131.4, top_b = 92, bottom_b = 126\<rparr>],
      [sample_label 7 ''Coleraine'' 5, sample_label 5 ''Antrim'' 0])"
  by (simp add: place_label_def boxA boxB boxC boxes_overlap_def)

theorem placed_never_overlap_witness:
  "fst (foldl (place_label sample_anchor 12) ([], [])
         (take 3 (sort_labels [sample_label 5 ''Antrim'' 0, sample_label 3 ''Belfast'' 0,
                               sample_label 7 ''Coleraine'' 5])))
     = [\<lparr>left_b = 356.9, right_b = 443.1, top_b = 292, bottom_b = 326\<rparr>,
        \<lparr>left_b = 68.6, right_b = 131.4, top_b = 92, bottom_b = 126\<rparr>]
   \<and> \<not> boxes_overlap \<lparr>left_b = 356.9, right_b = 443.1, top_b = 292, bottom_b = 326\<rparr>
                      \<lparr>left_b = 68.6, right_b = 131.4, top_b = 92, bottom_b = 126\<rparr>
   \<and> box_points \<lparr>left_b = 356.9, right_b = 443.1, top_b = 292, bottom_b = 326\<rparr>
       \<inter> box_points \<lparr>left_b = 68.6, right_b = 131.4, top_b = 92, bottom_b = 126\<rparr> = {}"
proof -
  let ?placed = "fst (foldl (place_label sample_anchor 12) ([], [])
         (take 3 (sort_labels [sample_label 5 ''Antrim'' 0, sample_label 3 ''Belfast'' 0,
                               sample_label 7 ''Coleraine'' 5])))"
  have t: "take 3 (sort_labels [sample_label 5 ''Antrim'' 0, sample_label 3 ''Belfast'' 0,
                               sample_label 7 ''Coleraine'' 5])
       = [sample_label 7 ''Coleraine'' 5, sample_label 5 ''Antrim'' 0, sample_label 3 ''Belfast'' 0]"
    by (simp add: sample_sorted)
  have p: "?placed = [\<lparr>left_b = 356.9, right_b = 443.1, top_b = 292, bottom_b = 326\<rparr>,
        \<lparr>left_b = 68.6, right_b = 131.4, top_b = 92, bottom_b = 126\<rparr>]"
    unfolding t sample_pass by simp
  have h2: "0 < length ?placed" and h3: "1 < length ?placed" and h4: "(0::nat) \<noteq> 1"
    by (simp_all add: p)
  from placed_never_overlap[OF refl h2 h3 h4] p
  show ?thesis by simp
qed

theorem overlap_resolution_witness:
  "snd (place_all sample_anchor 12 [sample_label 5 ''Antrim'' 0, sample_label 3 ''Belfast'' 0])
     = [sample_label 5 ''Antrim'' 0]
   \<and> boxes_overlap \<lparr>left_b = 68.6, right_b = 131.4, top_b = 92, bottom_b = 126\<rparr>
                    \<lparr>left_b = 74.7, right_b = 145.3, top_b = 97, bottom_b = 131\<rparr>
   \<and> priority_e (sample_label 5 ''Antrim'' 0) = priority_e (sample_label 3 ''Belfast'' 0)"
proof -
  let ?A = "sample_label 5 ''Antrim'' 0" and ?B = "sample_label 3 ''Belfast'' 0"
  have h1: "distinct [?A, ?B]" by (simp add: sample_label_def)
  have h2: "?A \<in> set [?A, ?B]" and h3: "?B \<in> set [?A, ?B]" by simp_all
  have h4: "?A \<noteq> ?B" by (simp add: sample_label_def)
  have h7: "boxes_overlap \<lparr>left_b = 68.6, right_b = 131.4, top_b = 92, bottom_b = 126\<rparr>
                    \<lparr>left_b = 74.7, right_b = 145.3, top_b = 97, bottom_b = 131\<rparr>"
    by (simp add: boxes_overlap_def)
  have h8: "\<forall>c\<in>set [?A, ?B]. \<forall>d\<in>set [?A, ?B]. c \<noteq> d \<longrightarrow> c \<noteq> ?B \<longrightarrow> d \<noteq> ?B \<longrightarrow>
           (\<forall>x y. label_box sample_anchor 12 c = Some x \<longrightarrow> label_box sample_anchor 12 d = Some y
                   \<longrightarrow> \<not> boxes_overlap x y)"
    by simp
  have h9: "priority_e ?A > priority_e ?B \<or> (priority_e ?A = priority_e ?B \<and> before ?A ?B [?A, ?B])"
    using h4 by (simp add: before_def sample_label_def)
  from overlap_resolution[OF h1 h2 h3 h4 boxA boxB h7 h8 h9]
  have "snd (place_all sample_anchor 12 [?A, ?B])
           = filter (\<lambda>c. label_box sample_anchor 12 c \<noteq> None \<and> c \<noteq> ?B) (sort_labels [?A, ?B])"
    by simp
  also have "sort_labels [?A, ?B] = [?A, ?B]"
    by (simp add: sort_labels_def sample_label_def)
  also have "filter (\<lambda>c. label_box sample_anchor 12 c \<noteq> None \<and> c \<noteq> ?B) [?A, ?B] = [?A]"
    using h4 by (simp add: boxA)
  finally show ?thesis using h7 by (simp add: sample_label_def)
qed

section \<open>Requests in flight\<close>

lemma loadFeature_cached:
  "map_get (loadedFeatures (featureLoader w)) (cacheKey_of D i l) = Some g
     \<Longrightarrow> loadFeature D i l w = (Value g, w)"
  by (simp add: loadFeature_def Let_def)

lemma loadFeature_pending:
  "map_get (loadedFeatures (featureLoader w)) (cacheKey_of D i l) = None
     \<Longrightarrow> map_get (pendingLoads (featureLoader w)) (url_of D i l) = Some p
     \<Longrightarrow> loadFeature D i l w = (Promise p, w)"
  by (simp add: loadFeature_def Let_def)

lemma loadFeature_fresh:
  "map_get (loadedFeatures (featureLoader w)) (cacheKey_of D i l) = None
     \<Longrightarrow> map_get (pendingLoads (featureLoader w)) (url_of D i l) = None
     \<Longrightarrow> loadFeature D i l w =
          (Promise (length (promises w)),
           w\<lparr>featureLoader := (featureLoader w)
                 \<lparr>pendingLoads := map_set (pendingLoads (featureLoader w)) (url_of D i l) (length (promises w))\<rparr>,
             promises := promises w @ [\<lparr>p_url = url_of D i l, p_cacheKey = cacheKey_of D i l, p_state = Pending\<rparr>],
             network := network w @ [Fetch (url_of D i l)]\<rparr>)"
  by (simp add: loadFeature_def Let_def)

lemma map_get_set: "map_get (map_set m k v) k' = (if k' = k then Some v else map_get m k')"
  by (simp add: map_get_def map_set_def update_conv)

lemma map_get_delete: "map_get (map_delete m k) k' = (if k' = k then None else map_get m k')"
  by (simp add: map_get_def map_delete_def delete_conv)

lemma observed_settle:
  assumes "p < length (promises w)" "p_state (promises w ! p) = Pending"
  shows "observed (settle r p w) (Promise p) = Some r"
  using assms by (cases r) (simp_all add: observed_def settle_def Let_def)

section \<open>Batches\<close>

subsection \<open>Keys and urls name one feature each\<close>

lemma digit_char_inj: "a < 10 \<Longrightarrow> b < 10 \<Longrightarrow> digit_char a = digit_char b \<Longrightarrow> a = b"
proof -
  assume a: "a < 10" and b: "b < 10" and e: "digit_char a = digit_char b"
  have d: "distinct ''0123456789''" by simp
  have "''0123456789'' ! a = ''0123456789'' ! b" using e a b by (simp add: digit_char_def)
  then show "a = b" using d a b by (simp add: nth_eq_iff_index_eq)
qed

lemma digit_char_in: "digit_char d \<in> set ''0123456789''"
proof -
  have "d mod 10 < length ''0123456789''" by simp
  then show ?thesis unfolding digit_char_def by (rule nth_mem)
qed

lemma dec_digits: "set (dec n) \<subseteq> set ''0123456789''"
proof (induction n rule: dec.induct)
  case (1 n)
  show ?case
  proof (cases "n < 10")
    case True
    then show ?thesis using digit_char_in[of n] by (subst dec.simps) simp
  next
    case False
    then show ?thesis using 1 digit_char_in[of "n mod 10"] by (subst dec.simps) simp
  qed
qed

lemma dec_nonempty: "dec n \<noteq> []"
  by (subst dec.simps) simp

lemma dec_length_ge2: "\<not> n < 10 \<Longrightarrow> 2 \<le> length (dec n)"
  using dec_nonempty[of "n div 10"] by (subst dec.simps) (cases "dec (n div 10)"; simp)

lemma dec_length_lt10: "n < 10 \<Longrightarrow> length (dec n) = 1"
  by (subst dec.simps) simp

lemma dec_inj: "dec m = dec n \<Longrightarrow> m = n"
proof (induction m arbitrary: n rule: dec.induct)
  case (1 m)
  show ?case
  proof (cases "m < 10")
    case True
    then have "n < 10" using 1(2) dec_length_ge2[of n] dec_length_lt10[of m] by force
    then show ?thesis using True 1(2) digit_char_inj[of m n]
      by (simp add: dec.simps[of m] dec.simps[of n])
  next
    case False
    then have n: "\<not> n < 10" using 1(2) dec_length_ge2[of m] dec_length_lt10[of n] by force
    have "dec (m div 10) @ [digit_char (m mod 10)] = dec (n div 10) @ [digit_char (n mod 10)]"
      using 1(2) False n by (simp add: dec.simps[of m] dec.simps[of n])
    then have a: "dec (m div 10) = dec (n div 10)" and b: "digit_char (m mod 10) = digit_char (n mod 10)"
      by simp_all
    have "m div 10 = n div 10" using 1(1)[OF False a] .
    moreover have "m mod 10 = n mod 10" using b digit_char_inj[of "m mod 10" "n mod 10"] by simp
    ultimately show ?thesis by (metis div_mult_mod_eq)
  qed
qed

lemma dec_no_minus: "hd (dec n) \<noteq> CHR ''-''"
proof -
  have "hd (dec n) \<in> set (dec n)" using dec_nonempty by simp
  then have "hd (dec n) \<in> set ''0123456789''" using dec_digits by blast
  then show ?thesis by auto
qed

lemma int_text_inj: "int_text a = int_text b \<Longrightarrow> a = b"
proof -
  assume e: "int_text a = int_text b"
  show "a = b"
  proof (cases "a < 0"; cases "b < 0")
    assume "a < 0" "b < 0"
    then show ?thesis using e dec_inj[of "nat (- a)" "nat (- b)"] by (simp add: int_text_def)
  next
    assume "a < 0" "\<not> b < 0"
    then show ?thesis using e dec_no_minus[of "nat b"] by (simp add: int_text_def) (metis list.sel(1))
  next
    assume "\<not> a < 0" "b < 0"
    then show ?thesis using e dec_no_minus[of "nat a"] by (simp add: int_text_def)
  next
    assume "\<not> a < 0" "\<not> b < 0"
    then show ?thesis using e dec_inj[of "nat a" "nat b"] by (simp add: int_text_def)
  qed
qed

lemma int_text_not_NaN: "int_text a \<noteq> ''NaN''"
proof
  assume e: "int_text a = ''NaN''"
  show False
  proof (cases "a < 0")
    case True
    then show ?thesis using e by (simp add: int_text_def)
  next
    case False
    then have "hd (dec (nat a)) = CHR ''N''" using e by (simp add: int_text_def)
    moreover have "hd (dec (nat a)) \<in> set ''0123456789''"
      using dec_digits[of "nat a"] dec_nonempty[of "nat a"] by (meson hd_in_set subsetD)
    ultimately show False by auto
  qed
qed

lemma index_text_inj:
  assumes "index_text i = index_text j"
  shows "i = j"
proof (cases i)
  case None
  then show ?thesis using assms int_text_not_NaN by (cases j) (auto simp: index_text_def)
next
  case (Some a)
  then show ?thesis using assms int_text_not_NaN int_text_inj by (cases j) (auto simp: index_text_def)
qed

lemma url_of_inj [simp]: "url_of D i l = url_of D j l \<longleftrightarrow> i = j"
  using index_text_inj by (auto simp: url_of_def)

lemma cacheKey_of_inj [simp]: "cacheKey_of D i l = cacheKey_of D j l \<longleftrightarrow> i = j"
  using index_text_inj by (auto simp: cacheKey_of_def)

subsection \<open>One batch of fresh keys\<close>

lemma upt_shift: "[n ..< n + Suc k] = n # [Suc n ..< Suc n + k]"
proof -
  have "n < n + Suc k" by simp
  then have "[n ..< n + Suc k] = n # [Suc n ..< n + Suc k]" by (rule upt_conv_Cons)
  then show ?thesis by (simp del: upt_Suc)
qed

lemma loadFeature_each_fresh:
  assumes "distinct b"
    and "\<forall>i\<in>set b. map_get (loadedFeatures (featureLoader w)) (cacheKey_of D i l) = None"
    and "\<forall>i\<in>set b. map_get (pendingLoads (featureLoader w)) (url_of D i l) = None"
  shows "loadFeature_each D l b w =
     (map Promise [length (promises w) ..< length (promises w) + length b],
      w\<lparr>featureLoader := (featureLoader w)
            \<lparr>pendingLoads := foldl (\<lambda>m (i, p). map_set m (url_of D i l) p)
                               (pendingLoads (featureLoader w))
                               (zip b [length (promises w) ..< length (promises w) + length b])\<rparr>,
        promises := promises w @ map (\<lambda>i. \<lparr>p_url = url_of D i l, p_cacheKey = cacheKey_of D i l,
                                             p_state = Pending\<rparr>) b,
        network := network w @ map (\<lambda>i. Fetch (url_of D i l)) b\<rparr>)"
  using assms
proof (induction b arbitrary: w)
  case Nil
  then show ?case by simp
next
  case (Cons i rest)
  let ?n = "length (promises w)"
  let ?w1 = "w\<lparr>featureLoader := (featureLoader w)
                 \<lparr>pendingLoads := map_set (pendingLoads (featureLoader w)) (url_of D i l) ?n\<rparr>,
             promises := promises w @ [\<lparr>p_url = url_of D i l, p_cacheKey = cacheKey_of D i l, p_state = Pending\<rparr>],
             network := network w @ [Fetch (url_of D i l)]\<rparr>"
  have first: "loadFeature D i l w = (Promise ?n, ?w1)"
    using Cons.prems by (intro loadFeature_fresh) simp_all
  have d: "distinct rest" using Cons.prems by simp
  have c: "\<forall>j\<in>set rest. map_get (loadedFeatures (featureLoader ?w1)) (cacheKey_of D j l) = None"
    using Cons.prems by simp
  have p: "\<forall>j\<in>set rest. map_get (pendingLoads (featureLoader ?w1)) (url_of D j l) = None"
    using Cons.prems by (auto simp: map_get_set)
  have upt: "[?n ..< ?n + length (i # rest)] = ?n # [Suc ?n ..< Suc ?n + length rest]"
    using upt_shift[of ?n "length rest"] by (simp del: upt_Suc)
  show ?case
    unfolding loadFeature_each.simps first upt
    by (simp add: Cons.IH[OF d c p])
qed

lemma await_all_pending:
  fixes U K :: "jsint \<Rightarrow> string"
  assumes "promises w = ps @ map (\<lambda>i. \<lparr>p_url = U i, p_cacheKey = K i, p_state = Pending\<rparr>) b"
  shows "foldl (await_handle t) w (map Promise [length ps ..< length ps + length b]) =
      w\<lparr>featureLoader := (featureLoader w)
            \<lparr>loadedFeatures := foldl (\<lambda>m i. case t (U i) of Some g \<Rightarrow> map_set m (K i) g | None \<Rightarrow> m)
                                 (loadedFeatures (featureLoader w)) b,
             pendingLoads := foldl (\<lambda>m i. map_delete m (U i)) (pendingLoads (featureLoader w)) b\<rparr>,
        promises := ps @ map (\<lambda>i. \<lparr>p_url = U i, p_cacheKey = K i, p_state = Resolved (t (U i))\<rparr>) b,
        network := network w @ map (\<lambda>i. Done (U i) (t (U i) \<noteq> None)) b\<rparr>"
  using assms
proof (induction b arbitrary: w ps)
  case Nil
  then show ?case by simp
next
  case (Cons i rest)
  let ?n = "length ps"
  let ?w1 = "await_handle t w (Promise ?n)"
  have nth: "promises w ! ?n = \<lparr>p_url = U i, p_cacheKey = K i, p_state = Pending\<rparr>"
    and lt: "?n < length (promises w)"
    using Cons.prems by (simp_all add: nth_append)
  have upd: "(promises w)[?n := x] = (ps @ [x]) @ map (\<lambda>i. \<lparr>p_url = U i, p_cacheKey = K i, p_state = Pending\<rparr>) rest" for x
    using Cons.prems by (simp add: list_update_append)
  have w1: "?w1 = w\<lparr>featureLoader := (featureLoader w)
            \<lparr>loadedFeatures := (case t (U i) of Some g \<Rightarrow> map_set (loadedFeatures (featureLoader w)) (K i) g
                                  | None \<Rightarrow> loadedFeatures (featureLoader w)),
             pendingLoads := map_delete (pendingLoads (featureLoader w)) (U i)\<rparr>,
        promises := (ps @ [\<lparr>p_url = U i, p_cacheKey = K i, p_state = Resolved (t (U i))\<rparr>])
                      @ map (\<lambda>i. \<lparr>p_url = U i, p_cacheKey = K i, p_state = Pending\<rparr>) rest,
        network := network w @ [Done (U i) (t (U i) \<noteq> None)]\<rparr>"
    using nth lt upd
    by (cases "t (U i)") (simp_all add: await_handle_def settle_def Let_def)
  have pr: "promises ?w1 = (ps @ [\<lparr>p_url = U i, p_cacheKey = K i, p_state = Resolved (t (U i))\<rparr>])
                      @ map (\<lambda>i. \<lparr>p_url = U i, p_cacheKey = K i, p_state = Pending\<rparr>) rest"
    by (simp add: w1)
  have upt: "[?n ..< ?n + length (i # rest)]
        = ?n # [length (ps @ [\<lparr>p_url = U i, p_cacheKey = K i, p_state = Resolved (t (U i))\<rparr>])
                 ..< length (ps @ [\<lparr>p_url = U i, p_cacheKey = K i, p_state = Resolved (t (U i))\<rparr>]) + length rest]"
    using upt_shift[of ?n "length rest"] by (simp del: upt_Suc)
  show ?case
    unfolding upt list.map foldl_Cons Cons.IH[OF pr]
    by (cases "t (U i)") (simp_all add: w1)
qed

lemma observed_resolved:
  fixes U K :: "jsint \<Rightarrow> string"
  assumes "promises w = ps @ map (\<lambda>i. \<lparr>p_url = U i, p_cacheKey = K i, p_state = Resolved (r i)\<rparr>) b"
  shows "map (\<lambda>h. case observed w h of Some x \<Rightarrow> x | None \<Rightarrow> None)
             (map Promise [length ps ..< length ps + length b]) = map r b"
proof (rule nth_equalityI)
  show "length (map (\<lambda>h. case observed w h of Some x \<Rightarrow> x | None \<Rightarrow> None)
             (map Promise [length ps ..< length ps + length b])) = length (map r b)"
    by simp
next
  fix j
  assume "j < length (map (\<lambda>h. case observed w h of Some x \<Rightarrow> x | None \<Rightarrow> None)
             (map Promise [length ps ..< length ps + length b]))"
  then have j: "j < length b" by simp
  then have "promises w ! (length ps + j) = \<lparr>p_url = U (b ! j), p_cacheKey = K (b ! j), p_state = Resolved (r (b ! j))\<rparr>"
    using assms by (simp add: nth_append)
  then show "map (\<lambda>h. case observed w h of Some x \<Rightarrow> x | None \<Rightarrow> None)
             (map Promise [length ps ..< length ps + length b]) ! j = map r b ! j"
    using j assms by (simp add: observed_def)
qed

lemma foldl_set_other:
  fixes K :: "jsint \<Rightarrow> string"
  shows "k \<notin> K ` set b \<Longrightarrow>
     map_get (foldl (\<lambda>m i. case r i of Some g \<Rightarrow> map_set m (K i) g | None \<Rightarrow> m) m b) k = map_get m k"
  by (induction b arbitrary: m) (auto simp: map_get_set split: option.splits)

lemma foldl_set_member:
  fixes K :: "jsint \<Rightarrow> string"
  shows "distinct (map K b) \<Longrightarrow> i \<in> set b \<Longrightarrow>
     map_get (foldl (\<lambda>m i. case r i of Some g \<Rightarrow> map_set m (K i) g | None \<Rightarrow> m) m b) (K i)
       = (case r i of Some g \<Rightarrow> Some g | None \<Rightarrow> map_get m (K i))"
proof (induction b arbitrary: m)
  case Nil
  then show ?case by simp
next
  case (Cons j rest)
  show ?case
  proof (cases "i = j")
    case True
    then have "K i \<notin> K ` set rest" using Cons.prems by auto
    then show ?thesis using True
      by (simp add: foldl_set_other map_get_set split: option.splits)
  next
    case False
    then have "i \<in> set rest" using Cons.prems by simp
    moreover have "K j \<notin> K ` set rest" using Cons.prems by simp
    ultimately have "i \<in> set rest" "K i \<noteq> K j" by (auto simp: image_iff)
    then show ?thesis using Cons.IH Cons.prems
      by (simp add: map_get_set split: option.splits)
  qed
qed

lemma foldl_delete_get:
  fixes U :: "jsint \<Rightarrow> string"
  shows "map_get (foldl (\<lambda>m i. map_delete m (U i)) m b) u
          = (if u \<in> U ` set b then None else map_get m u)"
  by (induction b arbitrary: m) (auto simp: map_get_delete)

lemma foldl_pending_other:
  fixes U :: "jsint \<Rightarrow> string"
  shows "u \<notin> U ` set b \<Longrightarrow>
     map_get (foldl (\<lambda>m (i, p). map_set m (U i) p) m (zip b ns)) u = map_get m u"
proof (induction b arbitrary: m ns)
  case Nil
  then show ?case by simp
next
  case (Cons i rest)
  then show ?case by (cases ns) (auto simp: map_get_set)
qed

lemma not_null_append: "not_null (xs @ ys) = not_null xs @ not_null ys"
  by (simp add: not_null_def)

text \<open>What one turn of the loop does to a batch of fresh keys.\<close>

lemma run_batch_fresh:
  assumes "distinct b"
    and "\<forall>i\<in>set b. map_get (loadedFeatures (featureLoader w)) (cacheKey_of D i l) = None"
    and "\<forall>i\<in>set b. map_get (pendingLoads (featureLoader w)) (url_of D i l) = None"
  shows "fst (run_batch t D l (res, w) b) = res @ not_null (map (\<lambda>i. t (url_of D i l)) b)"
    and "network (snd (run_batch t D l (res, w) b))
           = network w @ map (\<lambda>i. Fetch (url_of D i l)) b
                       @ map (\<lambda>i. Done (url_of D i l) (t (url_of D i l) \<noteq> None)) b"
    and "\<forall>i\<in>set b. map_get (loadedFeatures (featureLoader (snd (run_batch t D l (res, w) b))))
                        (cacheKey_of D i l) = t (url_of D i l)"
    and "\<forall>k. k \<notin> (\<lambda>i. cacheKey_of D i l) ` set b \<longrightarrow>
           map_get (loadedFeatures (featureLoader (snd (run_batch t D l (res, w) b)))) k
             = map_get (loadedFeatures (featureLoader w)) k"
    and "\<forall>u. map_get (pendingLoads (featureLoader (snd (run_batch t D l (res, w) b)))) u
             = (if u \<in> (\<lambda>i. url_of D i l) ` set b then None
                else map_get (pendingLoads (featureLoader w)) u)"
proof -
  let ?n = "length (promises w)"
  let ?U = "\<lambda>i. url_of D i l" and ?K = "\<lambda>i. cacheKey_of D i l"
  let ?w1 = "w\<lparr>featureLoader := (featureLoader w)
            \<lparr>pendingLoads := foldl (\<lambda>m (i, p). map_set m (?U i) p)
                               (pendingLoads (featureLoader w)) (zip b [?n ..< ?n + length b])\<rparr>,
        promises := promises w @ map (\<lambda>i. \<lparr>p_url = ?U i, p_cacheKey = ?K i, p_state = Pending\<rparr>) b,
        network := network w @ map (\<lambda>i. Fetch (?U i)) b\<rparr>"
  let ?hs = "map Promise [?n ..< ?n + length b]"
  let ?w2 = "?w1\<lparr>featureLoader := (featureLoader ?w1)
            \<lparr>loadedFeatures := foldl (\<lambda>m i. case t (?U i) of Some g \<Rightarrow> map_set m (?K i) g | None \<Rightarrow> m)
                                 (loadedFeatures (featureLoader ?w1)) b,
             pendingLoads := foldl (\<lambda>m i. map_delete m (?U i)) (pendingLoads (featureLoader ?w1)) b\<rparr>,
        promises := promises w @ map (\<lambda>i. \<lparr>p_url = ?U i, p_cacheKey = ?K i, p_state = Resolved (t (?U i))\<rparr>) b,
        network := network ?w1 @ map (\<lambda>i. Done (?U i) (t (?U i) \<noteq> None)) b\<rparr>"
  have issue: "loadFeature_each D l b w = (?hs, ?w1)"
    using assms by (rule loadFeature_each_fresh)
  have pr1: "promises ?w1 = promises w @ map (\<lambda>i. \<lparr>p_url = ?U i, p_cacheKey = ?K i, p_state = Pending\<rparr>) b"
    by simp
  have await: "foldl (await_handle t) ?w1 ?hs = ?w2"
    by (rule await_all_pending[OF pr1])
  have pr2: "promises ?w2 = promises w @ map (\<lambda>i. \<lparr>p_url = ?U i, p_cacheKey = ?K i, p_state = Resolved (t (?U i))\<rparr>) b"
    by simp
  have obs: "map (\<lambda>h. case observed ?w2 h of Some x \<Rightarrow> x | None \<Rightarrow> None) ?hs = map (\<lambda>i. t (?U i)) b"
    by (rule observed_resolved[OF pr2])
  have run: "run_batch t D l (res, w) b = (res @ not_null (map (\<lambda>i. t (?U i)) b), ?w2)"
    unfolding run_batch_def Promise_all_def Let_def prod.case issue await obs by (rule refl)
  show "fst (run_batch t D l (res, w) b) = res @ not_null (map (\<lambda>i. t (url_of D i l)) b)"
    by (simp only: run fst_conv)
  show "network (snd (run_batch t D l (res, w) b))
           = network w @ map (\<lambda>i. Fetch (url_of D i l)) b
                       @ map (\<lambda>i. Done (url_of D i l) (t (url_of D i l) \<noteq> None)) b"
    unfolding run snd_conv by simp
  have dk: "distinct (map ?K b)" using assms(1) by (simp add: distinct_map inj_on_def)
  show "\<forall>i\<in>set b. map_get (loadedFeatures (featureLoader (snd (run_batch t D l (res, w) b))))
                        (cacheKey_of D i l) = t (url_of D i l)"
    unfolding run snd_conv using assms(2) foldl_set_member[OF dk, where r = "\<lambda>i. t (?U i)"]
    by (auto split: option.splits)
  show "\<forall>k. k \<notin> (\<lambda>i. cacheKey_of D i l) ` set b \<longrightarrow>
           map_get (loadedFeatures (featureLoader (snd (run_batch t D l (res, w) b)))) k
             = map_get (loadedFeatures (featureLoader w)) k"
    unfolding run snd_conv by (simp add: foldl_set_other)
  show "\<forall>u. map_get (pendingLoads (featureLoader (snd (run_batch t D l (res, w) b)))) u
             = (if u \<in> (\<lambda>i. url_of D i l) ` set b then None
                else map_get (pendingLoads (featureLoader w)) u)"
    unfolding run snd_conv by (simp add: foldl_delete_get foldl_pending_other)
qed

subsection \<open>The loop over the batches\<close>

lemma batches_Nil [simp]: "batches n [] = []"
  by (subst batches.simps) simp

lemma batches_Cons: "0 < n \<Longrightarrow> xs \<noteq> [] \<Longrightarrow> batches n xs = take n xs # batches n (drop n xs)"
  by (subst batches.simps) simp

lemma concat_batches: "0 < n \<Longrightarrow> concat (batches n xs) = xs"
proof (induction n xs rule: batches.induct)
  case (1 n xs)
  then show ?case by (cases "xs = []") (simp_all add: batches_Cons)
qed

lemma batches_width: "0 < n \<Longrightarrow> b \<in> set (batches n xs) \<Longrightarrow> b \<noteq> [] \<and> length b \<le> n"
proof (induction n xs rule: batches.induct)
  case (1 n xs)
  then show ?case by (cases "xs = []") (auto simp: batches_Cons)
qed

lemma batches_full:
  "0 < n \<Longrightarrow> Suc k < length (batches n xs) \<Longrightarrow> length (batches n xs ! k) = n"
proof (induction n xs arbitrary: k rule: batches.induct)
  case (1 n xs)
  show ?case
  proof (cases "xs = []")
    case True
    then show ?thesis using 1 by simp
  next
    case False
    then have b: "batches n xs = take n xs # batches n (drop n xs)" using 1 by (simp add: batches_Cons)
    show ?thesis
    proof (cases k)
      case 0
      then have "batches n (drop n xs) \<noteq> []" using 1(3) b by auto
      then have "drop n xs \<noteq> []" by auto
      then show ?thesis using 0 b by simp
    next
      case (Suc k')
      then show ?thesis using 1 b False by simp
    qed
  qed
qed

lemma batches_120:
  assumes "length xs = 120"
  shows "map length (batches 50 xs) = [50, 50, 20]"
proof -
  let ?ys = "drop 50 xs" and ?zs = "drop 50 (drop 50 xs)"
  have x: "xs \<noteq> []" and y: "?ys \<noteq> []" and z: "?zs \<noteq> []" and e: "drop 50 ?zs = []"
    using assms by auto
  have b1: "batches 50 xs = take 50 xs # batches 50 ?ys"
    using x by (intro batches_Cons) simp_all
  have b2: "batches 50 ?ys = take 50 ?ys # batches 50 ?zs"
    using y by (intro batches_Cons) simp_all
  have b3: "batches 50 ?zs = take 50 ?zs # batches 50 (drop 50 ?zs)"
    using z by (intro batches_Cons) simp_all
  have b4: "batches 50 (drop 50 ?zs) = []"
    by (simp only: e batches_Nil)
  show ?thesis
    unfolding b1 b2 b3 b4 using assms by simp
qed

lemma loadFeatures_loop_fold:
  "loadFeatures_loop t D idx l i res w
     = foldl (run_batch t D l) (res, w) (batches CONCURRENT_LOADS (drop i idx))"
proof (induction t D idx l i res w rule: loadFeatures_loop.induct)
  case (1 t D idx l i res w)
  show ?case
  proof (cases "i < length idx")
    case False
    then show ?thesis by (subst loadFeatures_loop.simps) simp
  next
    case True
    let ?b = "slice idx i (i + CONCURRENT_LOADS)"
    obtain hs w1 where e: "loadFeature_each D l ?b w = (hs, w1)" by fastforce
    obtain rs w2 where p: "Promise_all t hs w1 = (rs, w2)" by fastforce
    have sl: "?b = take CONCURRENT_LOADS (drop i idx)" by (simp add: slice_def)
    have dr: "drop (i + CONCURRENT_LOADS) idx = drop CONCURRENT_LOADS (drop i idx)"
      by (simp add: add.commute)
    have bt: "batches CONCURRENT_LOADS (drop i idx)
                = ?b # batches CONCURRENT_LOADS (drop (i + CONCURRENT_LOADS) idx)"
      using True unfolding sl dr by (intro batches_Cons) (simp_all add: CONCURRENT_LOADS_def)
    have rb: "run_batch t D l (res, w) ?b = (res @ not_null rs, w2)"
      by (simp add: run_batch_def e p)
    have "loadFeatures_loop t D idx l i res w
            = loadFeatures_loop t D idx l (i + CONCURRENT_LOADS) (res @ not_null rs) w2"
      using True e p by (subst loadFeatures_loop.simps) (simp add: Let_def)
    also have "\<dots> = foldl (run_batch t D l) (res @ not_null rs, w2)
                        (batches CONCURRENT_LOADS (drop (i + CONCURRENT_LOADS) idx))"
      using 1[OF True refl e[symmetric] p[symmetric]] .
    finally show ?thesis by (simp add: bt rb)
  qed
qed

lemma loadFeatures_fold:
  "loadFeatures t D idx l w = foldl (run_batch t D l) ([], w) (batches 50 idx)"
  by (simp add: loadFeatures_def loadFeatures_loop_fold CONCURRENT_LOADS_def)

lemma fold_batches_fresh:
  assumes "0 < n" and "distinct r"
    and "\<forall>i\<in>set r. map_get (loadedFeatures (featureLoader w)) (cacheKey_of D i l) = None"
    and "\<forall>i\<in>set r. map_get (pendingLoads (featureLoader w)) (url_of D i l) = None"
  shows "fst (foldl (run_batch t D l) (res, w) (batches n r))
            = res @ not_null (map (\<lambda>i. t (url_of D i l)) r)
       \<and> network (snd (foldl (run_batch t D l) (res, w) (batches n r)))
            = network w @ concat (map (\<lambda>b. map (\<lambda>i. Fetch (url_of D i l)) b
                                            @ map (\<lambda>i. Done (url_of D i l) (t (url_of D i l) \<noteq> None)) b)
                                      (batches n r))
       \<and> (\<forall>i\<in>set r. map_get (loadedFeatures (featureLoader
                          (snd (foldl (run_batch t D l) (res, w) (batches n r))))) (cacheKey_of D i l)
                       = t (url_of D i l))
       \<and> (\<forall>k. k \<notin> (\<lambda>i. cacheKey_of D i l) ` set r \<longrightarrow>
              map_get (loadedFeatures (featureLoader
                          (snd (foldl (run_batch t D l) (res, w) (batches n r))))) k
                = map_get (loadedFeatures (featureLoader w)) k)
       \<and> (\<forall>u. map_get (pendingLoads (featureLoader
                          (snd (foldl (run_batch t D l) (res, w) (batches n r))))) u
                = (if u \<in> (\<lambda>i. url_of D i l) ` set r then None
                   else map_get (pendingLoads (featureLoader w)) u))"
  using assms
proof (induction n r arbitrary: res w rule: batches.induct)
  case (1 n r)
  show ?case
  proof (cases "r = []")
    case True
    then show ?thesis by (simp add: not_null_def)
  next
    case False
    let ?b = "take n r" and ?r' = "drop n r"
    let ?U = "\<lambda>i. url_of D i l" and ?K = "\<lambda>i. cacheKey_of D i l"
    obtain res1 w1 where rb: "run_batch t D l (res, w) ?b = (res1, w1)" by fastforce
    have split: "r = ?b @ ?r'" by simp
    have db: "distinct ?b" and dr: "distinct ?r'" and disj: "set ?b \<inter> set ?r' = {}"
      using "1.prems"(2) by (simp_all add: set_take_disj_set_drop_if_distinct)
    have sb: "set ?b \<subseteq> set r" and sr: "set ?r' \<subseteq> set r"
      by (auto dest: in_set_takeD in_set_dropD)
    have un: "set r = set ?b \<union> set ?r'" by (metis split set_append)
    have cb: "\<forall>i\<in>set ?b. map_get (loadedFeatures (featureLoader w)) (?K i) = None"
      and pb: "\<forall>i\<in>set ?b. map_get (pendingLoads (featureLoader w)) (?U i) = None"
      using "1.prems"(3,4) sb by auto
    note B = run_batch_fresh[OF db cb pb, of t res, unfolded rb fst_conv snd_conv]
    have c1: "\<forall>i\<in>set ?r'. map_get (loadedFeatures (featureLoader w1)) (?K i) = None"
    proof
      fix j assume j: "j \<in> set ?r'"
      then have "?K j \<notin> ?K ` set ?b" using disj by auto
      then have "map_get (loadedFeatures (featureLoader w1)) (?K j)
                   = map_get (loadedFeatures (featureLoader w)) (?K j)"
        using B(4) by blast
      then show "map_get (loadedFeatures (featureLoader w1)) (?K j) = None"
        using "1.prems"(3) sr j by auto
    qed
    have p1: "\<forall>i\<in>set ?r'. map_get (pendingLoads (featureLoader w1)) (?U i) = None"
      using B(5) "1.prems"(4) sr by auto
    have nz: "\<not> (n = 0 \<or> r = [])" using False "1.prems"(1) by simp
    note IH = "1.IH"[OF nz "1.prems"(1) dr c1 p1, of res1]
    have bt: "batches n r = ?b # batches n ?r'"
      using False "1.prems"(1) by (simp add: batches_Cons)
    have fold: "foldl (run_batch t D l) (res, w) (batches n r)
                  = foldl (run_batch t D l) (res1, w1) (batches n ?r')"
      by (simp add: bt rb)
    have r1: "fst (foldl (run_batch t D l) (res, w) (batches n r))
            = res @ not_null (map (\<lambda>i. t (?U i)) r)"
    proof -
      have "fst (foldl (run_batch t D l) (res, w) (batches n r))
              = (res @ not_null (map (\<lambda>i. t (?U i)) ?b)) @ not_null (map (\<lambda>i. t (?U i)) ?r')"
        using IH B(1) by (simp add: fold)
      also have "\<dots> = res @ not_null (map (\<lambda>i. t (?U i)) (?b @ ?r'))"
        by (simp only: map_append not_null_append append_assoc)
      finally show ?thesis by simp
    qed
    have r2: "network (snd (foldl (run_batch t D l) (res, w) (batches n r)))
            = network w @ concat (map (\<lambda>b. map (\<lambda>i. Fetch (?U i)) b
                                            @ map (\<lambda>i. Done (?U i) (t (?U i) \<noteq> None)) b)
                                      (batches n r))"
      using IH B(2) by (simp add: bt rb)
    have r3: "\<forall>i\<in>set r. map_get (loadedFeatures (featureLoader
                          (snd (foldl (run_batch t D l) (res, w) (batches n r))))) (?K i)
                       = t (?U i)"
    proof
      fix i assume i: "i \<in> set r"
      show "map_get (loadedFeatures (featureLoader
                (snd (foldl (run_batch t D l) (res, w) (batches n r))))) (?K i) = t (?U i)"
      proof (cases "i \<in> set ?r'")
        case True
        then show ?thesis using IH by (simp add: fold)
      next
        case False
        then have ib: "i \<in> set ?b" using i un by auto
        have "?K i \<notin> ?K ` set ?r'" using False by auto
        then have "map_get (loadedFeatures (featureLoader
                (snd (foldl (run_batch t D l) (res1, w1) (batches n ?r'))))) (?K i)
              = map_get (loadedFeatures (featureLoader w1)) (?K i)"
          using IH by blast
        then show ?thesis using B(3) ib by (simp add: fold)
      qed
    qed
    have r4: "\<forall>k. k \<notin> ?K ` set r \<longrightarrow>
              map_get (loadedFeatures (featureLoader
                          (snd (foldl (run_batch t D l) (res, w) (batches n r))))) k
                = map_get (loadedFeatures (featureLoader w)) k"
    proof (intro allI impI)
      fix k assume k: "k \<notin> ?K ` set r"
      then have "k \<notin> ?K ` set ?b" "k \<notin> ?K ` set ?r'" using un by auto
      then show "map_get (loadedFeatures (featureLoader
                          (snd (foldl (run_batch t D l) (res, w) (batches n r))))) k
                = map_get (loadedFeatures (featureLoader w)) k"
        using IH B(4) by (simp add: fold)
    qed
    have r5: "\<forall>u. map_get (pendingLoads (featureLoader
                          (snd (foldl (run_batch t D l) (res, w) (batches n r))))) u
                = (if u \<in> ?U ` set r then None
                   else map_get (pendingLoads (featureLoader w)) u)"
    proof
      fix u
      have "u \<in> ?U ` set r \<longleftrightarrow> u \<in> ?U ` set ?b \<or> u \<in> ?U ` set ?r'"
        using un by auto
      then show "map_get (pendingLoads (featureLoader
                          (snd (foldl (run_batch t D l) (res, w) (batches n r))))) u
                = (if u \<in> ?U ` set r then None
                   else map_get (pendingLoads (featureLoader w)) u)"
        using IH B(5) by (simp add: fold)
    qed
    show ?thesis using r1 r2 r3 r4 r5 by blast
  qed
qed

text \<open>
  C5. \<open>loadFeatures\<close> is the run, one after the other, of the batches of width 50 cut
  in order from the indices (120 indices give batches of 50, 50 and 20). For distinct
  indices none of which is cached or in flight, the transport sees, batch after
  batch, every \<open>fetch\<close> of the batch and then the end of every one of them, ok or
  failed, before the first \<open>fetch\<close> of the next batch. Whatever fails, every batch
  runs; the call returns the features that arrived, in order, and each key ends up
  cached exactly when its fetch succeeded, with nothing left in flight.
\<close>

theorem loadFeatures_batched:
  assumes "distinct indices"
    and "\<forall>i\<in>set indices. map_get (loadedFeatures (featureLoader w)) (cacheKey_of D i l) = None"
    and "\<forall>i\<in>set indices. map_get (pendingLoads (featureLoader w)) (url_of D i l) = None"
  shows "loadFeatures t D indices l w = foldl (run_batch t D l) ([], w) (batches 50 indices)
     \<and> concat (batches 50 indices) = indices
     \<and> (\<forall>b\<in>set (batches 50 indices). b \<noteq> [] \<and> length b \<le> 50)
     \<and> (\<forall>k. Suc k < length (batches 50 indices) \<longrightarrow> length (batches 50 indices ! k) = 50)
     \<and> (length indices = 120 \<longrightarrow> map length (batches 50 indices) = [50, 50, 20])
     \<and> network (snd (loadFeatures t D indices l w))
          = network w @ concat (map (\<lambda>b. map (\<lambda>i. Fetch (url_of D i l)) b
                                          @ map (\<lambda>i. Done (url_of D i l) (t (url_of D i l) \<noteq> None)) b)
                                    (batches 50 indices))
     \<and> fst (loadFeatures t D indices l w) = not_null (map (\<lambda>i. t (url_of D i l)) indices)
     \<and> (\<forall>i\<in>set indices. map_get (loadedFeatures (featureLoader (snd (loadFeatures t D indices l w))))
                              (cacheKey_of D i l) = t (url_of D i l))
     \<and> (\<forall>i\<in>set indices. map_get (pendingLoads (featureLoader (snd (loadFeatures t D indices l w))))
                              (url_of D i l) = None)"
proof -
  have pos: "(0::nat) < 50" by simp
  note F = fold_batches_fresh[OF pos assms, of t "[]", folded loadFeatures_fold]
  have a: "loadFeatures t D indices l w = foldl (run_batch t D l) ([], w) (batches 50 indices)"
    by (rule loadFeatures_fold)
  have b: "concat (batches 50 indices) = indices"
    by (rule concat_batches[OF pos])
  have c: "\<forall>b\<in>set (batches 50 indices). b \<noteq> [] \<and> length b \<le> 50"
    using batches_width[OF pos] by blast
  have d: "\<forall>k. Suc k < length (batches 50 indices) \<longrightarrow> length (batches 50 indices ! k) = 50"
    using batches_full[OF pos] by blast
  have e: "length indices = 120 \<longrightarrow> map length (batches 50 indices) = [50, 50, 20]"
    using batches_120 by blast
  have f: "network (snd (loadFeatures t D indices l w))
          = network w @ concat (map (\<lambda>b. map (\<lambda>i. Fetch (url_of D i l)) b
                                          @ map (\<lambda>i. Done (url_of D i l) (t (url_of D i l) \<noteq> None)) b)
                                    (batches 50 indices))"
    using F by blast
  have g: "fst (loadFeatures t D indices l w) = not_null (map (\<lambda>i. t (url_of D i l)) indices)"
    using F by simp
  have h: "\<forall>i\<in>set indices. map_get (loadedFeatures (featureLoader (snd (loadFeatures t D indices l w))))
                              (cacheKey_of D i l) = t (url_of D i l)"
    using F by blast
  have i: "\<forall>i\<in>set indices. map_get (pendingLoads (featureLoader (snd (loadFeatures t D indices l w))))
                              (url_of D i l) = None"
    using F by simp
  show ?thesis using a b c d e f g h i by blast
qed

lemma length_not_null: "length (not_null xs) = length (filter (\<lambda>x. x \<noteq> None) xs)"
  by (induction xs) (auto simp: not_null_def split: option.splits)

lemma sample_transport_url:
  "sample_transport (url_of ''wards'' i 2) = (if i = Some 60 then None else Some (url_of ''wards'' i 2))"
  by (simp add: sample_transport_def)

theorem loadFeatures_batched_witness:
  "map length (batches 50 sample_indices) = [50, 50, 20]
   \<and> length (fst (loadFeatures sample_transport ''wards'' sample_indices 2 new_world)) = 119
   \<and> map_get (loadedFeatures (featureLoader
        (snd (loadFeatures sample_transport ''wards'' sample_indices 2 new_world))))
        (cacheKey_of ''wards'' (Some 60) 2) = None
   \<and> map_get (loadedFeatures (featureLoader
        (snd (loadFeatures sample_transport ''wards'' sample_indices 2 new_world))))
        (cacheKey_of ''wards'' (Some 100) 2) = Some (url_of ''wards'' (Some 100) 2)"
proof -
  let ?w = "new_world :: string world"
  have h1: "distinct sample_indices"
    by (simp add: sample_indices_def distinct_map inj_on_def)
  have h2: "\<forall>i\<in>set sample_indices.
              map_get (loadedFeatures (featureLoader ?w)) (cacheKey_of ''wards'' i 2) = None"
    and h3: "\<forall>i\<in>set sample_indices.
              map_get (pendingLoads (featureLoader ?w)) (url_of ''wards'' i 2) = None"
    by (simp_all add: new_world_def new_FeatureLoader_def map_get_def)
  have len: "length sample_indices = 120" by (simp add: sample_indices_def)
  have m60: "Some 60 \<in> set sample_indices" and m100: "Some 100 \<in> set sample_indices"
    by (auto simp: sample_indices_def image_iff intro: bexI[of _ 60] bexI[of _ 100])
  note T = loadFeatures_batched[OF h1 h2 h3, of sample_transport]
  have sizes: "map length (batches 50 sample_indices) = [50, 50, 20]"
    using T len by blast
  have res: "fst (loadFeatures sample_transport ''wards'' sample_indices 2 ?w)
               = not_null (map (\<lambda>i. sample_transport (url_of ''wards'' i 2)) sample_indices)"
    using T by blast
  have "length (fst (loadFeatures sample_transport ''wards'' sample_indices 2 ?w))
          = length (filter (\<lambda>i. i \<noteq> Some 60) sample_indices)"
    unfolding res by (simp add: length_not_null sample_transport_url filter_map o_def)
  also have "\<dots> = length (filter (\<lambda>n. int n \<noteq> 60) [0..<120])"
    by (simp add: sample_indices_def filter_map o_def)
  also have "\<dots> = 119"
    by code_simp
  finally have cnt: "length (fst (loadFeatures sample_transport ''wards'' sample_indices 2 ?w)) = 119" .
  have cache: "\<forall>i\<in>set sample_indices.
      map_get (loadedFeatures (featureLoader
        (snd (loadFeatures sample_transport ''wards'' sample_indices 2 ?w))))
        (cacheKey_of ''wards'' i 2) = sample_transport (url_of ''wards'' i 2)"
    using T by blast
  show ?thesis
    using sizes cnt cache[rule_format, OF m60] cache[rule_format, OF m100]
    by (simp add: sample_transport_url)
qed

section \<open>The same request twice\<close>

subsection \<open>Cached keys in a batch\<close>

lemma await_handle_Value [simp]: "await_handle t w (Value g) = w"
  by (simp add: await_handle_def)

lemma loadedFeatures_loadFeature:
  "loadedFeatures (featureLoader (snd (loadFeature D i l w))) = loadedFeatures (featureLoader w)"
  by (simp add: loadFeature_def Let_def split: option.splits)

lemma loadFeature_each_Cons:
  "fst (loadFeature_each D l (i # rest) w)
     = fst (loadFeature D i l w) # fst (loadFeature_each D l rest (snd (loadFeature D i l w)))"
  "snd (loadFeature_each D l (i # rest) w)
     = snd (loadFeature_each D l rest (snd (loadFeature D i l w)))"
  by (simp_all add: case_prod_unfold)

text \<open>A cached index adds a value to the handles and nothing to the state.\<close>

lemma loadFeature_each_skip_cached:
  "snd (loadFeature_each D l b w)
     = snd (loadFeature_each D l
              (filter (\<lambda>i. map_get (loadedFeatures (featureLoader w)) (cacheKey_of D i l) = None) b) w)
   \<and> filter (\<lambda>h. \<forall>g. h \<noteq> Value g) (fst (loadFeature_each D l b w))
     = fst (loadFeature_each D l
              (filter (\<lambda>i. map_get (loadedFeatures (featureLoader w)) (cacheKey_of D i l) = None) b) w)"
proof (induction b arbitrary: w)
  case Nil
  then show ?case by simp
next
  case (Cons i rest)
  show ?case
  proof (cases "map_get (loadedFeatures (featureLoader w)) (cacheKey_of D i l)")
    case (Some g)
    then have "loadFeature D i l w = (Value g, w)" by (rule loadFeature_cached)
    then show ?thesis using Some Cons.IH[of w]
      by (simp add: loadFeature_each_Cons del: loadFeature_each.simps)
  next
    case None
    let ?w1 = "snd (loadFeature D i l w)"
    have same: "loadedFeatures (featureLoader ?w1) = loadedFeatures (featureLoader w)"
      by (rule loadedFeatures_loadFeature)
    have h: "\<forall>g. fst (loadFeature D i l w) \<noteq> Value g"
      using None by (auto simp: loadFeature_def Let_def split: option.splits)
    show ?thesis
      using None h Cons.IH[of ?w1]
      by (simp add: loadFeature_each_Cons same del: loadFeature_each.simps)
  qed
qed

lemma foldl_await_skip_values:
  "foldl (await_handle t) w hs = foldl (await_handle t) w (filter (\<lambda>h. \<forall>g. h \<noteq> Value g) hs)"
proof (induction hs arbitrary: w)
  case Nil
  then show ?case by simp
next
  case (Cons h hs)
  then show ?case by (cases h) simp_all
qed

lemma run_batch_skip_cached:
  "snd (run_batch t D l (res, w) b)
     = snd (run_batch t D l (res, w)
              (filter (\<lambda>i. map_get (loadedFeatures (featureLoader w)) (cacheKey_of D i l) = None) b))"
proof -
  let ?f = "filter (\<lambda>i. map_get (loadedFeatures (featureLoader w)) (cacheKey_of D i l) = None) b"
  obtain hs w1 where a: "loadFeature_each D l b w = (hs, w1)" by fastforce
  obtain hs' w1' where b: "loadFeature_each D l ?f w = (hs', w1')" by fastforce
  have w: "w1' = w1" and h: "hs' = filter (\<lambda>h. \<forall>g. h \<noteq> Value g) hs"
    using loadFeature_each_skip_cached[of D l b w] a b by simp_all
  have "foldl (await_handle t) w1 hs = foldl (await_handle t) w1 hs'"
    unfolding h by (rule foldl_await_skip_values)
  then show ?thesis
    by (simp add: run_batch_def Promise_all_def Let_def a b w)
qed

text \<open>A batch of keys none of which is in flight: the cached ones are left alone.\<close>

lemma run_batch_not_pending:
  assumes "distinct b"
    and "\<forall>i\<in>set b. map_get (pendingLoads (featureLoader w)) (url_of D i l) = None"
  shows "network (snd (run_batch t D l (res, w) b))
           = network w
             @ map (\<lambda>i. Fetch (url_of D i l))
                 (filter (\<lambda>i. map_get (loadedFeatures (featureLoader w)) (cacheKey_of D i l) = None) b)
             @ map (\<lambda>i. Done (url_of D i l) (t (url_of D i l) \<noteq> None))
                 (filter (\<lambda>i. map_get (loadedFeatures (featureLoader w)) (cacheKey_of D i l) = None) b)"
    and "\<forall>k. k \<notin> (\<lambda>i. cacheKey_of D i l) ` set b \<longrightarrow>
           map_get (loadedFeatures (featureLoader (snd (run_batch t D l (res, w) b)))) k
             = map_get (loadedFeatures (featureLoader w)) k"
    and "\<forall>u. map_get (pendingLoads (featureLoader (snd (run_batch t D l (res, w) b)))) u
             = (if u \<in> (\<lambda>i. url_of D i l) ` set b then None
                else map_get (pendingLoads (featureLoader w)) u)"
proof -
  let ?f = "filter (\<lambda>i. map_get (loadedFeatures (featureLoader w)) (cacheKey_of D i l) = None) b"
  have d: "distinct ?f" using assms(1) by simp
  have c: "\<forall>i\<in>set ?f. map_get (loadedFeatures (featureLoader w)) (cacheKey_of D i l) = None" by simp
  have p: "\<forall>i\<in>set ?f. map_get (pendingLoads (featureLoader w)) (url_of D i l) = None"
    using assms(2) by simp
  note B = run_batch_fresh[OF d c p, of t res, folded run_batch_skip_cached]
  show "network (snd (run_batch t D l (res, w) b))
           = network w @ map (\<lambda>i. Fetch (url_of D i l)) ?f
             @ map (\<lambda>i. Done (url_of D i l) (t (url_of D i l) \<noteq> None)) ?f"
    using B(2) .
  show "\<forall>k. k \<notin> (\<lambda>i. cacheKey_of D i l) ` set b \<longrightarrow>
           map_get (loadedFeatures (featureLoader (snd (run_batch t D l (res, w) b)))) k
             = map_get (loadedFeatures (featureLoader w)) k"
    using B(4) by auto
  show "\<forall>u. map_get (pendingLoads (featureLoader (snd (run_batch t D l (res, w) b)))) u
             = (if u \<in> (\<lambda>i. url_of D i l) ` set b then None
                else map_get (pendingLoads (featureLoader w)) u)"
  proof
    fix u
    show "map_get (pendingLoads (featureLoader (snd (run_batch t D l (res, w) b)))) u
             = (if u \<in> (\<lambda>i. url_of D i l) ` set b then None
                else map_get (pendingLoads (featureLoader w)) u)"
    proof (cases "u \<in> (\<lambda>i. url_of D i l) ` set ?f")
      case True
      then show ?thesis using B(5) by auto
    next
      case False
      then have "map_get (pendingLoads (featureLoader (snd (run_batch t D l (res, w) b)))) u
                   = map_get (pendingLoads (featureLoader w)) u"
        using B(5) by simp
      then show ?thesis using assms(2) by auto
    qed
  qed
qed

lemma batches_subset: "0 < n \<Longrightarrow> b \<in> set (batches n xs) \<Longrightarrow> set b \<subseteq> set xs"
  using concat_batches[of n xs] by (metis Sup_upper image_eqI set_concat)

lemma fold_batches_not_pending:
  assumes "0 < n" and "distinct r"
    and "\<forall>i\<in>set r. map_get (pendingLoads (featureLoader w)) (url_of D i l) = None"
  shows "network (snd (foldl (run_batch t D l) (res, w) (batches n r)))
            = network w @ concat (map (\<lambda>b.
                  map (\<lambda>i. Fetch (url_of D i l))
                    (filter (\<lambda>i. map_get (loadedFeatures (featureLoader w)) (cacheKey_of D i l) = None) b)
                  @ map (\<lambda>i. Done (url_of D i l) (t (url_of D i l) \<noteq> None))
                    (filter (\<lambda>i. map_get (loadedFeatures (featureLoader w)) (cacheKey_of D i l) = None) b))
                (batches n r))
       \<and> (\<forall>k. k \<notin> (\<lambda>i. cacheKey_of D i l) ` set r \<longrightarrow>
              map_get (loadedFeatures (featureLoader
                          (snd (foldl (run_batch t D l) (res, w) (batches n r))))) k
                = map_get (loadedFeatures (featureLoader w)) k)
       \<and> (\<forall>u. map_get (pendingLoads (featureLoader
                          (snd (foldl (run_batch t D l) (res, w) (batches n r))))) u
                = (if u \<in> (\<lambda>i. url_of D i l) ` set r then None
                   else map_get (pendingLoads (featureLoader w)) u))"
  using assms
proof (induction n r arbitrary: res w rule: batches.induct)
  case (1 n r)
  show ?case
  proof (cases "r = []")
    case True
    then show ?thesis by simp
  next
    case False
    let ?b = "take n r" and ?r' = "drop n r"
    let ?U = "\<lambda>i. url_of D i l" and ?K = "\<lambda>i. cacheKey_of D i l"
    let ?P = "\<lambda>w i. map_get (loadedFeatures (featureLoader w)) (?K i) = None"
    let ?ev = "\<lambda>w b. map (\<lambda>i. Fetch (?U i)) (filter (?P w) b)
                     @ map (\<lambda>i. Done (?U i) (t (?U i) \<noteq> None)) (filter (?P w) b)"
    obtain res1 w1 where rb: "run_batch t D l (res, w) ?b = (res1, w1)" by fastforce
    have db: "distinct ?b" and dr: "distinct ?r'" and disj: "set ?b \<inter> set ?r' = {}"
      using "1.prems"(2) by (simp_all add: set_take_disj_set_drop_if_distinct)
    have sb: "set ?b \<subseteq> set r" and sr: "set ?r' \<subseteq> set r"
      by (auto dest: in_set_takeD in_set_dropD)
    have un: "set r = set ?b \<union> set ?r'" by (metis append_take_drop_id set_append)
    have pb: "\<forall>i\<in>set ?b. map_get (pendingLoads (featureLoader w)) (?U i) = None"
      using "1.prems"(3) sb by auto
    note B = run_batch_not_pending[OF db pb, of t res, unfolded rb snd_conv]
    have p1: "\<forall>i\<in>set ?r'. map_get (pendingLoads (featureLoader w1)) (?U i) = None"
      using B(3) "1.prems"(3) sr by auto
    have nz: "\<not> (n = 0 \<or> r = [])" using False "1.prems"(1) by simp
    note IH = "1.IH"[OF nz "1.prems"(1) dr p1, of res1]
    have bt: "batches n r = ?b # batches n ?r'"
      using False "1.prems"(1) by (simp add: batches_Cons)
    have same: "?P w1 i = ?P w i" if "i \<in> set ?r'" for i
    proof -
      have "?K i \<notin> ?K ` set ?b" using that disj by auto
      then show ?thesis using B(2) by simp
    qed
    have evs: "map (?ev w1) (batches n ?r') = map (?ev w) (batches n ?r')"
    proof (rule map_cong[OF refl])
      fix b assume "b \<in> set (batches n ?r')"
      then have "set b \<subseteq> set ?r'" using batches_subset[OF "1.prems"(1)] by blast
      then have "filter (?P w1) b = filter (?P w) b"
        using same by (intro filter_cong) auto
      then show "?ev w1 b = ?ev w b" by simp
    qed
    have r2: "network (snd (foldl (run_batch t D l) (res, w) (batches n r)))
            = network w @ concat (map (?ev w) (batches n r))"
    proof -
      have "network (snd (foldl (run_batch t D l) (res, w) (batches n r)))
              = network w1 @ concat (map (?ev w1) (batches n ?r'))"
        using IH by (simp add: bt rb)
      also have "\<dots> = (network w @ ?ev w ?b) @ concat (map (?ev w) (batches n ?r'))"
        using B(1) by (simp only: evs append_assoc)
      finally show ?thesis by (simp add: bt)
    qed
    have r4: "\<forall>k. k \<notin> ?K ` set r \<longrightarrow>
              map_get (loadedFeatures (featureLoader
                          (snd (foldl (run_batch t D l) (res, w) (batches n r))))) k
                = map_get (loadedFeatures (featureLoader w)) k"
    proof (intro allI impI)
      fix k assume k: "k \<notin> ?K ` set r"
      then have "k \<notin> ?K ` set ?b" "k \<notin> ?K ` set ?r'" using un by auto
      then show "map_get (loadedFeatures (featureLoader
                          (snd (foldl (run_batch t D l) (res, w) (batches n r))))) k
                = map_get (loadedFeatures (featureLoader w)) k"
        using IH B(2) by (simp add: bt rb)
    qed
    have r5: "\<forall>u. map_get (pendingLoads (featureLoader
                          (snd (foldl (run_batch t D l) (res, w) (batches n r))))) u
                = (if u \<in> ?U ` set r then None
                   else map_get (pendingLoads (featureLoader w)) u)"
    proof
      fix u
      have "u \<in> ?U ` set r \<longleftrightarrow> u \<in> ?U ` set ?b \<or> u \<in> ?U ` set ?r'"
        using un by auto
      then show "map_get (pendingLoads (featureLoader
                          (snd (foldl (run_batch t D l) (res, w) (batches n r))))) u
                = (if u \<in> ?U ` set r then None
                   else map_get (pendingLoads (featureLoader w)) u)"
        using IH B(3) by (simp add: bt rb)
    qed
    show ?thesis using r2 r4 r5 by blast
  qed
qed

subsection \<open>What the transport was asked for\<close>

lemma fetched_append [simp]: "fetched (xs @ ys) = fetched xs @ fetched ys"
  by (simp add: fetched_def)

lemma fetched_Fetch [simp]: "fetched (map (\<lambda>i. Fetch (f i)) xs) = map f xs"
  by (induction xs) (simp_all add: fetched_def)

lemma fetched_Done [simp]: "fetched (map (\<lambda>i. Done (f i) (g i)) xs) = []"
  by (induction xs) (simp_all add: fetched_def)

lemma fetched_batches:
  "0 < n \<Longrightarrow>
   fetched (concat (map (\<lambda>b. map (\<lambda>i. Fetch (f i)) (filter P b)
                              @ map (\<lambda>i. Done (f i) (g i)) (filter P b)) (batches n xs)))
     = map f (filter P xs)"
proof (induction n xs rule: batches.induct)
  case (1 n xs)
  show ?case
  proof (cases "xs = []")
    case True
    then show ?thesis by (simp add: fetched_def)
  next
    case False
    have "map f (filter P (take n xs)) @ map f (filter P (drop n xs))
            = map f (filter P (take n xs @ drop n xs))"
      by (simp only: filter_append map_append)
    then show ?thesis using False 1 by (simp add: batches_Cons)
  qed
qed

subsection \<open>A batch asked for again while it is in flight\<close>

lemma foldl_pending_member:
  fixes U :: "jsint \<Rightarrow> string"
  shows "distinct (map U b) \<Longrightarrow> length ns = length b \<Longrightarrow> j < length b \<Longrightarrow>
     map_get (foldl (\<lambda>m (i, p). map_set m (U i) p) m (zip b ns)) (U (b ! j)) = Some (ns ! j)"
proof (induction b arbitrary: m ns j)
  case Nil
  then show ?case by simp
next
  case (Cons i rest)
  then obtain p ps where ns: "ns = p # ps" by (cases ns) auto
  show ?case
  proof (cases j)
    case 0
    have "U i \<notin> U ` set rest" using Cons.prems(1) by simp
    then show ?thesis using 0 ns by (simp add: foldl_pending_other map_get_set)
  next
    case (Suc j')
    then show ?thesis using Cons ns by simp
  qed
qed

lemma loadFeature_each_all_pending:
  assumes "\<forall>i\<in>set b. map_get (loadedFeatures (featureLoader w)) (cacheKey_of D i l) = None"
    and "\<forall>i\<in>set b. map_get (pendingLoads (featureLoader w)) (url_of D i l) \<noteq> None"
  shows "loadFeature_each D l b w
           = (map (\<lambda>i. Promise (the (map_get (pendingLoads (featureLoader w)) (url_of D i l)))) b, w)"
  using assms
proof (induction b)
  case Nil
  then show ?case by simp
next
  case (Cons i rest)
  then obtain p where "map_get (pendingLoads (featureLoader w)) (url_of D i l) = Some p" by auto
  moreover have "map_get (loadedFeatures (featureLoader w)) (cacheKey_of D i l) = None"
    using Cons.prems by simp
  ultimately have "loadFeature D i l w = (Promise p, w)"
    and "the (map_get (pendingLoads (featureLoader w)) (url_of D i l)) = p"
    by (simp_all add: loadFeature_pending)
  then show ?case using Cons by simp
qed

lemma loadFeature_each_in_flight:
  assumes "distinct b"
    and "\<forall>i\<in>set b. map_get (loadedFeatures (featureLoader w)) (cacheKey_of D i l) = None"
    and "\<forall>i\<in>set b. map_get (pendingLoads (featureLoader w)) (url_of D i l) = None"
  shows "loadFeature_each D l b (snd (loadFeature_each D l b w)) = loadFeature_each D l b w"
proof -
  let ?n = "length (promises w)"
  let ?U = "\<lambda>i. url_of D i l"
  let ?hs = "map Promise [?n ..< ?n + length b]"
  let ?w1 = "snd (loadFeature_each D l b w)"
  note F = loadFeature_each_fresh[OF assms]
  have hs: "fst (loadFeature_each D l b w) = ?hs" by (simp add: F)
  have pl: "pendingLoads (featureLoader ?w1)
              = foldl (\<lambda>m (i, p). map_set m (?U i) p) (pendingLoads (featureLoader w))
                  (zip b [?n ..< ?n + length b])"
    and ld: "loadedFeatures (featureLoader ?w1) = loadedFeatures (featureLoader w)"
    by (simp_all add: F)
  have du: "distinct (map ?U b)" using assms(1) by (simp add: distinct_map inj_on_def)
  have pend: "map_get (pendingLoads (featureLoader ?w1)) (?U (b ! j)) = Some (?n + j)"
    if "j < length b" for j
    unfolding pl using foldl_pending_member[OF du _ that, of "[?n ..< ?n + length b]"] that
    by simp
  have c1: "\<forall>i\<in>set b. map_get (loadedFeatures (featureLoader ?w1)) (cacheKey_of D i l) = None"
    using assms(2) by (simp add: ld)
  have p1: "\<forall>i\<in>set b. map_get (pendingLoads (featureLoader ?w1)) (?U i) \<noteq> None"
    using pend by (metis in_set_conv_nth option.distinct(1))
  have "map (\<lambda>i. Promise (the (map_get (pendingLoads (featureLoader ?w1)) (?U i)))) b = ?hs"
    by (rule nth_equalityI) (simp_all add: pend)
  then have "loadFeature_each D l b ?w1 = (?hs, ?w1)"
    using loadFeature_each_all_pending[OF c1 p1] by simp
  then show ?thesis using hs by (metis prod.collapse)
qed

lemma observed_in_flight:
  assumes "distinct b"
    and "\<forall>i\<in>set b. map_get (loadedFeatures (featureLoader w)) (cacheKey_of D i l) = None"
    and "\<forall>i\<in>set b. map_get (pendingLoads (featureLoader w)) (url_of D i l) = None"
    and "j < length b"
  shows "fst (loadFeature_each D l b w) ! j = Promise (length (promises w) + j)"
    and "observed (snd (loadFeature_each D l b w)) (fst (loadFeature_each D l b w) ! j) = None"
    and "observed (settle r (length (promises w) + j) (snd (loadFeature_each D l b w)))
           (fst (loadFeature_each D l b w) ! j) = Some r"
proof -
  note F = loadFeature_each_fresh[OF assms(1-3)]
  let ?w1 = "snd (loadFeature_each D l b w)"
  let ?p = "length (promises w) + j"
  show h: "fst (loadFeature_each D l b w) ! j = Promise ?p"
    using assms(4) by (simp add: F)
  have lt: "?p < length (promises ?w1)" and pd: "p_state (promises ?w1 ! ?p) = Pending"
    using assms(4) by (simp_all add: F nth_append)
  show "observed ?w1 (fst (loadFeature_each D l b w) ! j) = None"
    unfolding h using lt pd by (simp add: observed_def)
  show "observed (settle r ?p ?w1) (fst (loadFeature_each D l b w) ! j) = Some r"
    unfolding h using lt pd by (rule observed_settle)
qed

subsection \<open>The cache after a pass\<close>

lemma run_batch_cache:
  assumes "distinct b"
    and "\<forall>i\<in>set b. map_get (pendingLoads (featureLoader w)) (url_of D i l) = None"
  shows "\<forall>i\<in>set b. map_get (loadedFeatures (featureLoader (snd (run_batch t D l (res, w) b))))
                        (cacheKey_of D i l)
                     = (case map_get (loadedFeatures (featureLoader w)) (cacheKey_of D i l) of
                          Some g \<Rightarrow> Some g | None \<Rightarrow> t (url_of D i l))"
proof
  fix i assume i: "i \<in> set b"
  let ?f = "filter (\<lambda>i. map_get (loadedFeatures (featureLoader w)) (cacheKey_of D i l) = None) b"
  have d: "distinct ?f" using assms(1) by simp
  have c: "\<forall>i\<in>set ?f. map_get (loadedFeatures (featureLoader w)) (cacheKey_of D i l) = None" by simp
  have p: "\<forall>i\<in>set ?f. map_get (pendingLoads (featureLoader w)) (url_of D i l) = None"
    using assms(2) by simp
  note B = run_batch_fresh[OF d c p, of t res, folded run_batch_skip_cached]
  show "map_get (loadedFeatures (featureLoader (snd (run_batch t D l (res, w) b)))) (cacheKey_of D i l)
          = (case map_get (loadedFeatures (featureLoader w)) (cacheKey_of D i l) of
               Some g \<Rightarrow> Some g | None \<Rightarrow> t (url_of D i l))"
  proof (cases "map_get (loadedFeatures (featureLoader w)) (cacheKey_of D i l)")
    case None
    then have "i \<in> set ?f" using i by simp
    then show ?thesis using B(3) None by simp
  next
    case (Some g)
    then have "cacheKey_of D i l \<notin> (\<lambda>i. cacheKey_of D i l) ` set ?f" by auto
    then show ?thesis using B(4) Some by simp
  qed
qed

lemma fold_batches_cache:
  assumes "0 < n" and "distinct r"
    and "\<forall>i\<in>set r. map_get (pendingLoads (featureLoader w)) (url_of D i l) = None"
  shows "\<forall>i\<in>set r. map_get (loadedFeatures (featureLoader
                          (snd (foldl (run_batch t D l) (res, w) (batches n r))))) (cacheKey_of D i l)
                     = (case map_get (loadedFeatures (featureLoader w)) (cacheKey_of D i l) of
                          Some g \<Rightarrow> Some g | None \<Rightarrow> t (url_of D i l))"
  using assms
proof (induction n r arbitrary: res w rule: batches.induct)
  case (1 n r)
  show ?case
  proof (cases "r = []")
    case True
    then show ?thesis by simp
  next
    case False
    let ?b = "take n r" and ?r' = "drop n r"
    let ?U = "\<lambda>i. url_of D i l" and ?K = "\<lambda>i. cacheKey_of D i l"
    let ?C = "\<lambda>w i. case map_get (loadedFeatures (featureLoader w)) (?K i) of
                       Some g \<Rightarrow> Some g | None \<Rightarrow> t (?U i)"
    obtain res1 w1 where rb: "run_batch t D l (res, w) ?b = (res1, w1)" by fastforce
    have db: "distinct ?b" and dr: "distinct ?r'" and disj: "set ?b \<inter> set ?r' = {}"
      using "1.prems"(2) by (simp_all add: set_take_disj_set_drop_if_distinct)
    have sb: "set ?b \<subseteq> set r" and sr: "set ?r' \<subseteq> set r"
      by (auto dest: in_set_takeD in_set_dropD)
    have un: "set r = set ?b \<union> set ?r'" by (metis append_take_drop_id set_append)
    have pb: "\<forall>i\<in>set ?b. map_get (pendingLoads (featureLoader w)) (?U i) = None"
      using "1.prems"(3) sb by auto
    note B = run_batch_not_pending[OF db pb, of t res, unfolded rb snd_conv]
    note C = run_batch_cache[OF db pb, of t res, unfolded rb snd_conv]
    have p1: "\<forall>i\<in>set ?r'. map_get (pendingLoads (featureLoader w1)) (?U i) = None"
      using B(3) "1.prems"(3) sr by auto
    have nz: "\<not> (n = 0 \<or> r = [])" using False "1.prems"(1) by simp
    note IH = "1.IH"[OF nz "1.prems"(1) dr p1, of res1]
    note N = fold_batches_not_pending[OF "1.prems"(1) dr p1, of t res1]
    have bt: "batches n r = ?b # batches n ?r'"
      using False "1.prems"(1) by (simp add: batches_Cons)
    show ?thesis
    proof
      fix i assume "i \<in> set r"
      then consider "i \<in> set ?b" "i \<notin> set ?r'" | "i \<in> set ?r'" "i \<notin> set ?b"
        using un disj by auto
      then show "map_get (loadedFeatures (featureLoader
                          (snd (foldl (run_batch t D l) (res, w) (batches n r))))) (?K i) = ?C w i"
      proof cases
        case 1
        then have "?K i \<notin> ?K ` set ?r'" by auto
        then have "map_get (loadedFeatures (featureLoader
                          (snd (foldl (run_batch t D l) (res1, w1) (batches n ?r'))))) (?K i)
                     = map_get (loadedFeatures (featureLoader w1)) (?K i)"
          using N by blast
        then show ?thesis using C 1 by (simp add: bt rb)
      next
        case 2
        then have "?K i \<notin> ?K ` set ?b" by auto
        then have "map_get (loadedFeatures (featureLoader w1)) (?K i)
                     = map_get (loadedFeatures (featureLoader w)) (?K i)"
          using B(2) by blast
        then show ?thesis using IH 2 by (simp add: bt rb)
      qed
    qed
  qed
qed

subsection \<open>The same request made twice\<close>

lemma loadFeatures_again:
  assumes "distinct indices"
    and "\<forall>i\<in>set indices. map_get (pendingLoads (featureLoader w)) (url_of D i l) = None"
  shows "network (snd (loadFeatures t2 D indices l (snd (loadFeatures t1 D indices l w))))
           = network w
             @ concat (map (\<lambda>b.
                   map (\<lambda>i. Fetch (url_of D i l))
                     (filter (\<lambda>i. map_get (loadedFeatures (featureLoader w)) (cacheKey_of D i l) = None) b)
                   @ map (\<lambda>i. Done (url_of D i l) (t1 (url_of D i l) \<noteq> None))
                     (filter (\<lambda>i. map_get (loadedFeatures (featureLoader w)) (cacheKey_of D i l) = None) b))
                 (batches 50 indices))
             @ concat (map (\<lambda>b.
                   map (\<lambda>i. Fetch (url_of D i l))
                     (filter (\<lambda>i. map_get (loadedFeatures (featureLoader w)) (cacheKey_of D i l) = None
                                   \<and> t1 (url_of D i l) = None) b)
                   @ map (\<lambda>i. Done (url_of D i l) (t2 (url_of D i l) \<noteq> None))
                     (filter (\<lambda>i. map_get (loadedFeatures (featureLoader w)) (cacheKey_of D i l) = None
                                   \<and> t1 (url_of D i l) = None) b))
                 (batches 50 indices))"
proof -
  let ?w1 = "snd (loadFeatures t1 D indices l w)"
  let ?P = "\<lambda>i. map_get (loadedFeatures (featureLoader ?w1)) (cacheKey_of D i l) = None"
  let ?Q = "\<lambda>i. map_get (loadedFeatures (featureLoader w)) (cacheKey_of D i l) = None
                 \<and> t1 (url_of D i l) = None"
  have pos: "(0::nat) < 50" by simp
  note F = fold_batches_not_pending[OF pos assms, of t1 "[]", folded loadFeatures_fold]
  note C = fold_batches_cache[OF pos assms, of t1 "[]", folded loadFeatures_fold]
  have n1: "network ?w1 = network w
             @ concat (map (\<lambda>b.
                   map (\<lambda>i. Fetch (url_of D i l))
                     (filter (\<lambda>i. map_get (loadedFeatures (featureLoader w)) (cacheKey_of D i l) = None) b)
                   @ map (\<lambda>i. Done (url_of D i l) (t1 (url_of D i l) \<noteq> None))
                     (filter (\<lambda>i. map_get (loadedFeatures (featureLoader w)) (cacheKey_of D i l) = None) b))
                 (batches 50 indices))"
    using F by blast
  have p1: "\<forall>i\<in>set indices. map_get (pendingLoads (featureLoader ?w1)) (url_of D i l) = None"
    using F by simp
  have PQ: "?P i = ?Q i" if "i \<in> set indices" for i
    using C that by (auto split: option.splits)
  note G = fold_batches_not_pending[OF pos assms(1) p1, of t2 "[]", folded loadFeatures_fold]
  have ev: "map (\<lambda>b. map (\<lambda>i. Fetch (url_of D i l)) (filter ?P b)
                      @ map (\<lambda>i. Done (url_of D i l) (t2 (url_of D i l) \<noteq> None)) (filter ?P b))
              (batches 50 indices)
          = map (\<lambda>b. map (\<lambda>i. Fetch (url_of D i l)) (filter ?Q b)
                      @ map (\<lambda>i. Done (url_of D i l) (t2 (url_of D i l) \<noteq> None)) (filter ?Q b))
              (batches 50 indices)"
  proof (rule map_cong[OF refl])
    fix b assume "b \<in> set (batches 50 indices)"
    then have "set b \<subseteq> set indices" using batches_subset[OF pos] by blast
    then have "filter ?P b = filter ?Q b"
      using PQ by (intro filter_cong) auto
    then show "map (\<lambda>i. Fetch (url_of D i l)) (filter ?P b)
                 @ map (\<lambda>i. Done (url_of D i l) (t2 (url_of D i l) \<noteq> None)) (filter ?P b)
             = map (\<lambda>i. Fetch (url_of D i l)) (filter ?Q b)
                 @ map (\<lambda>i. Done (url_of D i l) (t2 (url_of D i l) \<noteq> None)) (filter ?Q b)"
      by simp
  qed
  have "network (snd (loadFeatures t2 D indices l ?w1))
          = network ?w1 @ concat (map (\<lambda>b. map (\<lambda>i. Fetch (url_of D i l)) (filter ?P b)
                      @ map (\<lambda>i. Done (url_of D i l) (t2 (url_of D i l) \<noteq> None)) (filter ?P b))
              (batches 50 indices))"
    using G by blast
  then show ?thesis unfolding ev n1 by simp
qed

text \<open>
  C4, as the code has it. \<open>ensureLoaded\<close> is \<open>loadFeatures\<close>. The indices are distinct
  and none of their keys is in flight.

  Two identical calls of \<open>loadFeatures\<close>, one after the other: the first asks the
  transport once for every key that is not in the cache, the second asks again for
  exactly those of them whose first fetch failed. So the two calls issue no network
  operation for a cached key, exactly one for a key whose fetch succeeds, and two for
  a key whose fetch fails.

  The second request made while the first is in flight: \<open>loadFeatures\<close> starts its
  first batch, the first 50 indices, at once. When none of the keys is cached and the
  batch is asked for again before any answer has come, it gets the same promises and
  the state is unchanged: the transport has seen one fetch for each key. Who follows
  the promise of a key has nothing until it settles, and then the one result.

  A single key, in any state: a cached key is answered with the cached payload, a key
  in flight with the promise in \<open>pendingLoads\<close>, and in both cases the state, the log of
  the transport included, is what it was.
\<close>

theorem loadFeatures_twice:
  assumes "distinct indices"
    and "\<forall>i\<in>set indices. map_get (pendingLoads (featureLoader w)) (url_of D i l) = None"
  shows "fetched (network (snd (loadFeatures t2 D indices l (snd (loadFeatures t1 D indices l w)))))
           = fetched (network w)
             @ map (\<lambda>i. url_of D i l)
                 (filter (\<lambda>i. map_get (loadedFeatures (featureLoader w)) (cacheKey_of D i l) = None)
                    indices)
             @ map (\<lambda>i. url_of D i l)
                 (filter (\<lambda>i. map_get (loadedFeatures (featureLoader w)) (cacheKey_of D i l) = None
                               \<and> t1 (url_of D i l) = None) indices)
       \<and> ((\<forall>i\<in>set indices. map_get (loadedFeatures (featureLoader w)) (cacheKey_of D i l) = None)
          \<longrightarrow> loadFeature_each D l (take 50 indices) (snd (loadFeature_each D l (take 50 indices) w))
                 = loadFeature_each D l (take 50 indices) w
            \<and> fetched (network (snd (loadFeature_each D l (take 50 indices) w)))
                 = fetched (network w) @ map (\<lambda>i. url_of D i l) (take 50 indices)
            \<and> (\<forall>j<length (take 50 indices).
                  observed (snd (loadFeature_each D l (take 50 indices) w))
                    (fst (loadFeature_each D l (take 50 indices) w) ! j) = None
                \<and> observed (settle r (length (promises w) + j)
                              (snd (loadFeature_each D l (take 50 indices) w)))
                    (fst (loadFeature_each D l (take 50 indices) w) ! j) = Some r))
       \<and> (map_get (loadedFeatures (featureLoader wa)) (cacheKey_of D i l) = Some ga
              \<longrightarrow> loadFeature D i l wa = (Value ga, wa))
       \<and> (map_get (loadedFeatures (featureLoader wa)) (cacheKey_of D i l) = None
              \<and> map_get (pendingLoads (featureLoader wa)) (url_of D i l) = Some pa
              \<longrightarrow> loadFeature D i l wa = (Promise pa, wa))"
proof -
  have pos: "(0::nat) < 50" by simp
  let ?b = "take 50 indices"
  have a: "fetched (network (snd (loadFeatures t2 D indices l (snd (loadFeatures t1 D indices l w)))))
           = fetched (network w)
             @ map (\<lambda>i. url_of D i l)
                 (filter (\<lambda>i. map_get (loadedFeatures (featureLoader w)) (cacheKey_of D i l) = None)
                    indices)
             @ map (\<lambda>i. url_of D i l)
                 (filter (\<lambda>i. map_get (loadedFeatures (featureLoader w)) (cacheKey_of D i l) = None
                               \<and> t1 (url_of D i l) = None) indices)"
    unfolding loadFeatures_again[OF assms]
    by (simp add: fetched_batches[OF pos])
  have b: "loadFeature_each D l ?b (snd (loadFeature_each D l ?b w)) = loadFeature_each D l ?b w
         \<and> fetched (network (snd (loadFeature_each D l ?b w)))
             = fetched (network w) @ map (\<lambda>i. url_of D i l) ?b
         \<and> (\<forall>j<length ?b.
             observed (snd (loadFeature_each D l ?b w)) (fst (loadFeature_each D l ?b w) ! j) = None
           \<and> observed (settle r (length (promises w) + j) (snd (loadFeature_each D l ?b w)))
               (fst (loadFeature_each D l ?b w) ! j) = Some r)"
    if c: "\<forall>i\<in>set indices. map_get (loadedFeatures (featureLoader w)) (cacheKey_of D i l) = None"
  proof -
    have db: "distinct ?b" using assms(1) by simp
    have cb: "\<forall>i\<in>set ?b. map_get (loadedFeatures (featureLoader w)) (cacheKey_of D i l) = None"
      and pb: "\<forall>i\<in>set ?b. map_get (pendingLoads (featureLoader w)) (url_of D i l) = None"
      using c assms(2) by (auto dest: in_set_takeD)
    have b1: "loadFeature_each D l ?b (snd (loadFeature_each D l ?b w)) = loadFeature_each D l ?b w"
      using db cb pb by (rule loadFeature_each_in_flight)
    have b2: "fetched (network (snd (loadFeature_each D l ?b w)))
           = fetched (network w) @ map (\<lambda>i. url_of D i l) ?b"
      by (simp add: loadFeature_each_fresh[OF db cb pb])
    have b3: "\<forall>j<length ?b.
             observed (snd (loadFeature_each D l ?b w)) (fst (loadFeature_each D l ?b w) ! j) = None
           \<and> observed (settle r (length (promises w) + j) (snd (loadFeature_each D l ?b w)))
               (fst (loadFeature_each D l ?b w) ! j) = Some r"
      using observed_in_flight(2,3)[OF db cb pb] by blast
    show ?thesis using b1 b2 b3 by blast
  qed
  show ?thesis
    using a b loadFeature_cached[of wa D i l ga] loadFeature_pending[of wa D i l pa]
    by blast
qed

text \<open>
  Features 60 and 61 asked for twice from the start-up state, the fetch of feature 60
  failing: three fetches, the third for feature 60 again. Asked for twice while in
  flight: two fetches. Feature 61 asked for once more afterwards: the cached payload.
\<close>

theorem loadFeatures_twice_witness:
  "fetched (network (snd (loadFeatures sample_transport ''wards'' [Some 60, Some 61] 2
      (snd (loadFeatures sample_transport ''wards'' [Some 60, Some 61] 2 new_world)))))
     = [url_of ''wards'' (Some 60) 2, url_of ''wards'' (Some 61) 2, url_of ''wards'' (Some 60) 2]
   \<and> fetched (network (snd (loadFeature_each ''wards'' 2 [Some 60, Some 61]
        (snd (loadFeature_each ''wards'' 2 [Some 60, Some 61] (new_world :: string world))))))
     = [url_of ''wards'' (Some 60) 2, url_of ''wards'' (Some 61) 2]
   \<and> loadFeature ''wards'' (Some 61) 2
        (snd (loadFeatures sample_transport ''wards'' [Some 60, Some 61] 2 new_world))
     = (Value (url_of ''wards'' (Some 61) 2),
        snd (loadFeatures sample_transport ''wards'' [Some 60, Some 61] 2 new_world))"
proof -
  let ?w = "new_world :: string world"
  let ?w2 = "snd (loadFeatures sample_transport ''wards'' [Some 60, Some 61] 2 ?w)"
  have pos: "(0::nat) < 50" by simp
  have h1: "distinct [Some 60, Some (61::int)]" by simp
  have h2: "\<forall>i\<in>set [Some 60, Some 61].
              map_get (loadedFeatures (featureLoader ?w)) (cacheKey_of ''wards'' i 2) = None"
    and h3: "\<forall>i\<in>set [Some 60, Some 61].
              map_get (pendingLoads (featureLoader ?w)) (url_of ''wards'' i 2) = None"
    by (simp_all add: new_world_def new_FeatureLoader_def map_get_def)
  have tk: "take 50 [Some 60, Some (61::int)] = [Some 60, Some 61]" by simp
  note T = loadFeatures_twice[OF h1 h3, where ?t1.0 = sample_transport and ?t2.0 = sample_transport,
             unfolded tk]
  have n0: "fetched (network ?w) = []" by (simp add: new_world_def fetched_def)
  have a: "fetched (network (snd (loadFeatures sample_transport ''wards'' [Some 60, Some 61] 2 ?w2)))
     = [url_of ''wards'' (Some 60) 2, url_of ''wards'' (Some 61) 2, url_of ''wards'' (Some 60) 2]"
    unfolding T[THEN conjunct1] n0 using h2 by (simp add: sample_transport_url)
  note B = T[THEN conjunct2, THEN conjunct1, THEN mp, OF h2]
  have b: "loadFeature_each ''wards'' 2 [Some 60, Some 61]
          (snd (loadFeature_each ''wards'' 2 [Some 60, Some 61] ?w))
        = loadFeature_each ''wards'' 2 [Some 60, Some 61] ?w"
    by (rule B[THEN conjunct1])
  have c: "fetched (network (snd (loadFeature_each ''wards'' 2 [Some 60, Some 61] ?w)))
        = [url_of ''wards'' (Some 60) 2, url_of ''wards'' (Some 61) 2]"
    unfolding B[THEN conjunct2, THEN conjunct1] n0 by simp
  have "map_get (loadedFeatures (featureLoader ?w2)) (cacheKey_of ''wards'' (Some 61) 2)
          = Some (url_of ''wards'' (Some 61) 2)"
    using fold_batches_cache[OF pos h1 h3, of sample_transport "[]", folded loadFeatures_fold] h2
    by (simp add: sample_transport_url)
  then have d: "loadFeature ''wards'' (Some 61) 2 ?w2 = (Value (url_of ''wards'' (Some 61) 2), ?w2)"
    by (rule T[THEN conjunct2, THEN conjunct2, THEN conjunct1, THEN mp])
  show ?thesis unfolding b using a c d by blast
qed

text \<open>
  The claim as it is worded, exactly one network operation for two identical requests,
  fails when the fetch fails: the key is neither cached nor in flight afterwards, and
  the second of the two calls fetches it again.
\<close>

theorem loadFeatures_twice_counterexample:
  "network (snd (loadFeatures failing_transport ''wards'' [Some 7] 2
      (snd (loadFeatures failing_transport ''wards'' [Some 7] 2 (new_world :: string world)))))
     = [Fetch (url_of ''wards'' (Some 7) 2), Done (url_of ''wards'' (Some 7) 2) False,
        Fetch (url_of ''wards'' (Some 7) 2), Done (url_of ''wards'' (Some 7) 2) False]"
proof -
  let ?w = "new_world :: string world"
  have h1: "distinct [Some (7::int)]" by simp
  have h2: "map_get (loadedFeatures (featureLoader ?w)) (cacheKey_of ''wards'' (Some 7) 2) = None"
    and h3: "\<forall>i\<in>set [Some 7].
              map_get (pendingLoads (featureLoader ?w)) (url_of ''wards'' i 2) = None"
    by (simp_all add: new_world_def new_FeatureLoader_def map_get_def)
  have b: "batches 50 [Some (7::int)] = [[Some 7]]" by (simp add: batches_Cons)
  have n0: "network ?w = []" by (simp add: new_world_def)
  show ?thesis
    unfolding loadFeatures_again[OF h1 h3] b n0
    by (simp add: failing_transport_def h2)
qed

section \<open>The change of detail level\<close>















end
